theory Spec2Isabelle
  imports Complex_Main "HOL-Library.Word"
begin

unbundle bit_operations_syntax

section \<open>Roommate matching: branch and bound against exhaustive enumeration\<close>

text \<open>
  The two solvers of the repository are Numba-compiled Python functions. Their state is
  a bitmask of type \<open>np.int64\<close> in which bit \<open>i\<close> says that student \<open>i\<close> is still
  unmatched. The embedding keeps the source's shape:
  \<^item> a mask is a \<open>64 word\<close>; \<open>&\<close> is \<open>AND\<close>, \<open>~\<close> is \<open>NOT\<close>, unary minus and \<open>- 1\<close>
    wrap modulo \<open>2 ^ 64\<close>, and \<open>>>\<close> on the signed mask is the arithmetic shift
    \<open>signed_drop_bit\<close>;
  \<^item> \<open>1 << i\<close> is the machine shift of the compiled code, which uses the low six bits of
    the shift count: \<open>shl1 i\<close> has the single bit \<open>i mod 64\<close>. So \<open>1 << 64\<close> is \<open>1\<close> and the
    test \<open>mask & (1 << j)\<close> reads bit \<open>j mod 64\<close> of the mask;
  \<^item> student indices and the number \<open>n\<close> of students are natural numbers;
  \<^item> the compatibility matrix \<open>comp\<close> is a function of two indices; its \<open>float64\<close>
    entries and all scores are real numbers, so rounding is not modelled;
  \<^item> the mutable one-element arrays, typed lists and the typed dictionary that the
    recursion shares are the fields of a record that every function takes and returns;
  \<^item> the counter \<open>allocations\<close> is an \<open>np.int64\<close>, a \<open>64 word\<close> read by \<open>sint\<close>: its
    increment wraps;
  \<^item> \<open>np.argsort\<close> is library code whose order on equal keys is not fixed by its
    contract; the solver takes it as a parameter ranging over every function that meets
    the contract.
  The source's variables \<open>mask\<close> and \<open>comp\<close> are written \<open>msk\<close> and \<open>cmat\<close>, since HOL
  has constants of these names.
\<close>

type_synonym bitmask = "64 word"
type_synonym pair = "nat \<times> nat"
type_synonym matrix = "nat \<Rightarrow> nat \<Rightarrow> real"

definition shl1 :: "nat \<Rightarrow> bitmask" where
  "shl1 i = push_bit (i mod 64) 1"

subsection \<open>The contract of \<open>np.argsort\<close>\<close>

text \<open>
  \<open>np.argsort xs\<close> returns the indices of \<open>xs\<close>, each once, in an order that lists the
  values ascending.
\<close>

definition argsort_contract :: "(real list \<Rightarrow> nat list) \<Rightarrow> bool" where
  "argsort_contract f \<longleftrightarrow>
     (\<forall>xs. distinct (f xs) \<and> set (f xs) = {0..<length xs} \<and>
           sorted (map (\<lambda>k. xs ! k) (f xs)))"

definition stable_argsort :: "real list \<Rightarrow> nat list" where
  "stable_argsort xs = sort_key (\<lambda>k. xs ! k) [0..<length xs]"

lemma stable_argsort_contract: "argsort_contract stable_argsort"
  by (simp add: argsort_contract_def stable_argsort_def)

typedef argsorter = "{f. argsort_contract f}"
  using stable_argsort_contract by auto

setup_lifting type_definition_argsorter

lift_definition argsort :: "argsorter \<Rightarrow> real list \<Rightarrow> nat list" is "\<lambda>f. f" .

lift_definition insertion_argsort :: argsorter is stable_argsort
  by (rule stable_argsort_contract)

subsection \<open>The bound of the branch and bound search\<close>

text \<open>
  \<^verbatim>\<open>
  def compute_upper_bound(mask, comp, n):
      additional = 0.0
      for i in range(n):
          if mask & (1 << i):
              best_val = 0.0
              for j in range(n):
                  if (mask & (1 << j)) and (i != j):
                      if comp[i, j] > best_val:
                          best_val = comp[i, j]
              additional += best_val
      return additional / 2.0
  \<close>
  \<open>best_partner\<close> is the inner loop: the last \<open>best_val\<close> of one \<open>i\<close>.
\<close>

definition best_partner :: "bitmask \<Rightarrow> matrix \<Rightarrow> nat \<Rightarrow> nat \<Rightarrow> real" where
  "best_partner msk cmat n i =
     fold (\<lambda>j best_val.
             if msk AND shl1 j \<noteq> 0 \<and> i \<noteq> j
             then (if cmat i j > best_val then cmat i j else best_val)
             else best_val)
          [0..<n] 0"

definition compute_upper_bound :: "bitmask \<Rightarrow> matrix \<Rightarrow> nat \<Rightarrow> real" where
  "compute_upper_bound msk cmat n =
     fold (\<lambda>i additional.
             if msk AND shl1 i \<noteq> 0
             then additional + best_partner msk cmat n i
             else additional)
          [0..<n] 0 / 2"

subsection \<open>The shared state of one search\<close>

text \<open>
  \<open>trail\<close> is not in the source: it logs, in order, every mask on which \<open>search\<close> is
  entered. Nothing reads it.
\<close>

record bb_state =
  best_score :: real
  best_pairs :: "pair list"
  current_pairs :: "pair list"
  memo :: "bitmask \<rightharpoonup> real"
  allocations :: "64 word"
  trail :: "bitmask list"

subsection \<open>The branch and bound search\<close>

text \<open>
  The pivot: \<^verbatim>\<open>i = 0; while i < n: if mask & (1 << i): break; i += 1\<close>.
\<close>

function first_unmatched :: "bitmask \<Rightarrow> nat \<Rightarrow> nat \<Rightarrow> nat" where
  "first_unmatched msk n i =
     (if i < n then (if msk AND shl1 i \<noteq> 0 then i else first_unmatched msk n (i + 1))
      else i)"
  by pat_completeness auto
termination
  by (relation "measure (\<lambda>(msk, n, i). n - i)") auto

text \<open>
  The candidates, in the order in which they are tried: the set bits of \<open>new_mask\<close> below
  \<open>n\<close>, ascending (\<open>candidate_arr\<close>), permuted by the reversed \<open>argsort\<close> of their scores
  with the pivot.
\<close>

definition candidate_arr :: "bitmask \<Rightarrow> nat \<Rightarrow> nat list" where
  "candidate_arr new_mask n = filter (\<lambda>j. new_mask AND shl1 j \<noteq> 0) [0..<n]"

definition sorted_candidates :: "argsorter \<Rightarrow> matrix \<Rightarrow> nat \<Rightarrow> nat \<Rightarrow> bitmask \<Rightarrow> nat list" where
  "sorted_candidates srt cmat n i new_mask =
     (let cands = candidate_arr new_mask n;
          order_temp = argsort srt (map (\<lambda>j. cmat i j) cands);
          m = length order_temp;
          order = map (\<lambda>k. order_temp ! (m - 1 - k)) [0..<m]
      in map (\<lambda>k. cands ! k) order)"

text \<open>
  The pruning test with its cache: the stored bound if the mask is in \<open>memo\<close>, else the
  bound is computed and stored. The result says whether the node is pruned.
\<close>

definition prune :: "matrix \<Rightarrow> nat \<Rightarrow> bitmask \<Rightarrow> real \<Rightarrow> bb_state \<Rightarrow> bool \<times> bb_state" where
  "prune cmat n msk current_score st =
     (case memo st msk of
        Some ub \<Rightarrow> (current_score + ub \<le> best_score st, st)
      | None \<Rightarrow>
          (let ub_val = compute_upper_bound msk cmat n;
               st1 = st\<lparr>memo := (memo st)(msk \<mapsto> ub_val)\<rparr>
           in (current_score + ub_val \<le> best_score st1, st1)))"

text \<open>
  The terminal case: a score strictly above the tracked best replaces it, and
  \<open>best_pairs\<close> is cleared and refilled with a copy of \<open>current_pairs\<close>.
\<close>

definition record_best :: "real \<Rightarrow> bb_state \<Rightarrow> bb_state" where
  "record_best current_score st =
     (if current_score > best_score st
      then st\<lparr>best_score := current_score, best_pairs := current_pairs st\<rparr>
      else st)"

text \<open>The number of set bits of a mask.\<close>

definition popcount :: "bitmask \<Rightarrow> nat" where
  "popcount msk = length (filter (bit msk) [0..<64])"

subsection \<open>Masks as sets of students\<close>

lemma bit_single: "bit (2 ^ j :: bitmask) k \<longleftrightarrow> k = j \<and> j < 64"
  by (auto simp add: bit_exp_iff)

lemma word_nonzero_bit: "w \<noteq> 0 \<Longrightarrow> \<exists>k. bit w k" for w :: bitmask
  by (metis bit_word_eqI bit_0_eq bot_apply bot_bool_def)

lemma bit_test2: "(msk AND 2 ^ j \<noteq> 0) \<longleftrightarrow> bit msk j" for msk :: bitmask
proof
  assume "msk AND 2 ^ j \<noteq> 0"
  then obtain k where "bit (msk AND 2 ^ j) k"
    using word_nonzero_bit by blast
  then show "bit msk j" by (auto simp: bit_and_iff bit_single)
next
  assume b: "bit msk j"
  then have "j < 64" using bit_imp_le_length[of msk j] by simp
  with b have "bit (msk AND 2 ^ j) j" by (simp add: bit_and_iff bit_single)
  then show "msk AND 2 ^ j \<noteq> 0" by auto
qed

lemma bit_test: "(msk AND shl1 j \<noteq> 0) \<longleftrightarrow> bit msk (j mod 64)" for msk :: bitmask
  using bit_test2[of msk "j mod 64"] by (simp add: shl1_def)

lemma bit_test_small: "j < 64 \<Longrightarrow> (msk AND shl1 j \<noteq> 0) \<longleftrightarrow> bit msk j" for msk :: bitmask
  by (simp add: bit_test)

lemma bit_clear2: "bit (msk AND NOT (2 ^ j)) k \<longleftrightarrow> bit msk k \<and> k \<noteq> j" for msk :: bitmask
  using bit_imp_le_length[of msk k] by (auto simp add: bit_and_iff bit_not_iff bit_single)

lemma bit_clear: "bit (msk AND NOT (shl1 j)) k \<longleftrightarrow> bit msk k \<and> k \<noteq> j mod 64" for msk :: bitmask
  using bit_clear2[of msk "j mod 64" k] by (simp add: shl1_def)

text \<open>The students of a mask: the positions of its set bits.\<close>

definition ents :: "bitmask \<Rightarrow> nat set" where
  "ents msk = {i. bit msk i}"

lemma ents_sub: "ents msk \<subseteq> {0..<64}"
proof
  fix x assume "x \<in> ents msk"
  then show "x \<in> {0..<64}" using bit_imp_le_length[of msk x] by (simp add: ents_def)
qed

lemma finite_ents: "finite (ents msk)"
  using ents_sub finite_subset by blast

lemma popcount_card: "popcount msk = card (ents msk)"
proof -
  have "set (filter (bit msk) [0..<64]) = ents msk"
    using ents_sub[of msk] by (auto simp: ents_def)
  moreover have "distinct (filter (bit msk) [0..<64])" by simp
  ultimately show ?thesis unfolding popcount_def using distinct_card by metis 
qed

lemma ents_zero: "ents msk = {} \<longleftrightarrow> msk = 0"
proof
  assume "ents msk = {}"
  then have "\<And>k. \<not> bit msk k" by (auto simp: ents_def)
  then show "msk = 0" by (intro bit_word_eqI) simp
qed (simp add: ents_def)

lemma ents_clear_mod: "ents (msk AND NOT (shl1 j)) = ents msk - {j mod 64}"
  using bit_clear[of msk j] by (auto simp: ents_def)

lemma ents_clear: "j < 64 \<Longrightarrow> ents (msk AND NOT (shl1 j)) = ents msk - {j}"
  by (simp add: ents_clear_mod)

lemma ents_member_small: "j \<in> ents msk \<Longrightarrow> j < 64"
  using ents_sub[of msk] by auto

lemma set_candidate_arr: "set (candidate_arr nm n) = {j. j < n \<and> j mod 64 \<in> ents nm}"
  using bit_test[of nm] by (auto simp: candidate_arr_def ents_def)

lemma rev_by_index: "map (\<lambda>k. xs ! (length xs - 1 - k)) [0..<length xs] = rev xs"
  by (rule nth_equalityI) (auto simp: rev_nth)

lemma argsort_props: "distinct (argsort srt xs)" "set (argsort srt xs) = {0..<length xs}"
  "sorted (map (\<lambda>k. xs ! k) (argsort srt xs))"
  by (transfer; simp add: argsort_contract_def)+

lemma set_sorted_candidates:
  "set (sorted_candidates srt cmat n i nm) = set (candidate_arr nm n)"
proof -
  let ?c = "candidate_arr nm n"
  let ?o = "argsort srt (map (\<lambda>j. cmat i j) ?c)"
  have "sorted_candidates srt cmat n i nm = map (\<lambda>k. ?c ! k) (rev ?o)"
    unfolding sorted_candidates_def Let_def rev_by_index ..
  moreover have "set ?o = {0..<length ?c}" by (simp add: argsort_props)
  moreover have "(!) ?c ` {0..<length ?c} = set ?c"
    by (auto simp: in_set_conv_nth)
  ultimately show ?thesis by simp
qed

lemma distinct_sorted_candidates: "distinct (sorted_candidates srt cmat n i nm)"
proof -
  let ?c = "candidate_arr nm n"
  let ?o = "argsort srt (map (\<lambda>j. cmat i j) ?c)"
  have e: "sorted_candidates srt cmat n i nm = map (\<lambda>k. ?c ! k) (rev ?o)"
    unfolding sorted_candidates_def Let_def rev_by_index ..
  have s: "set ?o = {0..<length ?c}" by (simp add: argsort_props)
  have d: "distinct ?c" by (simp add: candidate_arr_def)
  have "inj_on (\<lambda>k. ?c ! k) (set (rev ?o))"
    using s d by (auto simp: inj_on_def nth_eq_iff_index_eq)
  then show ?thesis unfolding e by (simp add: distinct_map argsort_props)
qed

lemma popcount_clear_less:
  assumes "j mod 64 \<in> ents nm" "ents nm \<subseteq> ents msk"
  shows "popcount (nm AND NOT (shl1 j)) < popcount msk"
proof -
  have "card (ents nm - {j mod 64}) < card (ents nm)"
    using assms(1) finite_ents by (meson card_Diff1_less)
  moreover have "card (ents nm) \<le> card (ents msk)"
    using assms(2) finite_ents by (meson card_mono)
  ultimately show ?thesis unfolding popcount_card ents_clear_mod by simp
qed

subsection \<open>The recursion\<close>

text \<open>
  \<^verbatim>\<open>
  def search(mask, current_score, comp, n, best_score, best_pairs, current_pairs, memo,
             allocations):
      if mask == 0:
          if current_score > best_score[0]:
              best_score[0] = current_score
              clear_typed_list(best_pairs)
              for idx in range(len(current_pairs)):
                  best_pairs.append(current_pairs[idx])
          return
      if mask in memo:
          if current_score + memo[mask] <= best_score[0]:
              return
      else:
          ub_val = compute_upper_bound(mask, comp, n)
          memo[mask] = ub_val
          if current_score + ub_val <= best_score[0]:
              return
      i = 0
      while i < n:
          if mask & (1 << i):
              break
          i += 1
      new_mask = mask & ~(1 << i)
      (candidate_arr, order_temp, order, sorted_candidates)
      for j in sorted_candidates:
          pair_score = comp[i, j]
          next_mask = new_mask & ~(1 << j)
          current_pairs.append((i, j))
          allocations[0] += 1
          search(next_mask, current_score + pair_score, ...)
          current_pairs.pop()
  \<close>
  The recursion ends because every call is on a mask with fewer set bits.
\<close>

function search :: "argsorter \<Rightarrow> matrix \<Rightarrow> nat \<Rightarrow> bitmask \<Rightarrow> real \<Rightarrow> bb_state \<Rightarrow> bb_state" where
  "search srt cmat n msk current_score st0 =
     (let st = st0\<lparr>trail := trail st0 @ [msk]\<rparr> in
      if msk = 0 then record_best current_score st
      else
        (case prune cmat n msk current_score st of
           (True, st1) \<Rightarrow> st1
         | (False, st1) \<Rightarrow>
             (let i = first_unmatched msk n 0;
                  new_mask = msk AND NOT (shl1 i)
              in fold (\<lambda>j s.
                         let pair_score = cmat i j;
                             next_mask = new_mask AND NOT (shl1 j);
                             s1 = s\<lparr>current_pairs := current_pairs s @ [(i, j)]\<rparr>;
                             s2 = s1\<lparr>allocations := allocations s1 + 1\<rparr>;
                             s3 = search srt cmat n next_mask (current_score + pair_score) s2
                         in s3\<lparr>current_pairs := butlast (current_pairs s3)\<rparr>)
                      (sorted_candidates srt cmat n i new_mask) st1)))"
  by pat_completeness auto
termination search
  apply (relation "measure (\<lambda>(srt, cmat, n, msk, cur, st). popcount msk)")
   apply simp
  subgoal for srt cmat n msk current_score st0 st pr st1 i new_mask j s pair_score next_mask
  proof -
    assume a: "new_mask = msk AND NOT (shl1 i)"
      "j \<in> set (sorted_candidates srt cmat n i new_mask)"
      and b: "next_mask = new_mask AND NOT (shl1 j)"
    from a(2) have "j mod 64 \<in> ents new_mask"
      unfolding set_sorted_candidates set_candidate_arr by simp
    moreover have "ents new_mask \<subseteq> ents msk" unfolding a(1) ents_clear_mod by auto
    ultimately have "popcount (new_mask AND NOT (shl1 j)) < popcount msk"
      by (rule popcount_clear_less)
    then show ?thesis unfolding b by simp
  qed
  done

lemma search_zero:
  "search srt cmat n 0 current_score st =
     record_best current_score (st\<lparr>trail := trail st @ [0]\<rparr>)"
  by (subst search.simps) simp

text \<open>The body of the loop over the candidates, and the loop, as functions of their own.\<close>

declare search.simps [simp del]
declare first_unmatched.simps [simp del]

definition branch ::
  "argsorter \<Rightarrow> matrix \<Rightarrow> nat \<Rightarrow> nat \<Rightarrow> bitmask \<Rightarrow> real \<Rightarrow> nat \<Rightarrow> bb_state \<Rightarrow> bb_state" where
  "branch srt cmat n i new_mask current_score j s =
     (let s3 = search srt cmat n (new_mask AND NOT (shl1 j)) (current_score + cmat i j)
                 (s\<lparr>current_pairs := current_pairs s @ [(i, j)],
                    allocations := allocations s + 1\<rparr>)
      in s3\<lparr>current_pairs := butlast (current_pairs s3)\<rparr>)"

definition expand :: "argsorter \<Rightarrow> matrix \<Rightarrow> nat \<Rightarrow> bitmask \<Rightarrow> real \<Rightarrow> bb_state \<Rightarrow> bb_state" where
  "expand srt cmat n msk current_score st1 =
     (let i = first_unmatched msk n 0;
          new_mask = msk AND NOT (shl1 i)
      in fold (branch srt cmat n i new_mask current_score)
              (sorted_candidates srt cmat n i new_mask) st1)"

lemma search_nonzero:
  "msk \<noteq> 0 \<Longrightarrow>
   search srt cmat n msk current_score st0 =
     (case prune cmat n msk current_score (st0\<lparr>trail := trail st0 @ [msk]\<rparr>) of
        (pruned, st1) \<Rightarrow> if pruned then st1 else expand srt cmat n msk current_score st1)"
  apply (subst search.simps)
  apply (simp add: Let_def expand_def branch_def[abs_def] split: prod.splits bool.splits)
  done


lemma search_nonzero':
  "msk \<noteq> 0 \<Longrightarrow>
   search srt cmat n msk current_score st0 =
     (let p = prune cmat n msk current_score (st0\<lparr>trail := trail st0 @ [msk]\<rparr>)
      in if fst p then snd p else expand srt cmat n msk current_score (snd p))"
  by (simp add: search_nonzero case_prod_beta Let_def)

subsection \<open>The entry point\<close>

text \<open>
  \<^verbatim>\<open>
  def branch_and_bound_numba(comp, n):
      best_score = np.array([-1e9], dtype=np.float64)
      best_pairs = typed.List.empty_list(pair_type)
      current_pairs = typed.List.empty_list(pair_type)
      memo = typed.Dict.empty(key_type=types.int64, value_type=types.float64)
      allocations = np.zeros(1, dtype=np.int64)
      full_mask = np.int64((1 << n) - 1)
      search(full_mask, 0.0, comp, n, best_score, best_pairs, current_pairs, memo, allocations)
      return best_score[0], best_pairs, allocations[0]
  \<close>
\<close>

definition full_mask :: "nat \<Rightarrow> bitmask" where
  "full_mask n = shl1 n - 1"

definition init_state :: bb_state where
  "init_state =
     \<lparr>best_score = - 1000000000, best_pairs = [], current_pairs = [],
      memo = Map.empty, allocations = 0, trail = []\<rparr>"

definition run_search :: "argsorter \<Rightarrow> matrix \<Rightarrow> nat \<Rightarrow> bb_state" where
  "run_search srt cmat n = search srt cmat n (full_mask n) 0 init_state"

definition branch_and_bound_numba ::
    "argsorter \<Rightarrow> matrix \<Rightarrow> nat \<Rightarrow> real \<times> pair list \<times> 64 word" where
  "branch_and_bound_numba srt cmat n =
     (let st = run_search srt cmat n in (best_score st, best_pairs st, allocations st))"

subsection \<open>The full mask\<close>

lemma full_mask_eq_mask: "full_mask n = mask (n mod 64)"
  by (simp add: full_mask_def shl1_def mask_eq_exp_minus_1)

lemma bit_full_mask: "bit (full_mask n) i \<longleftrightarrow> i < n mod 64"
  by (auto simp add: full_mask_eq_mask bit_mask_iff intro: less_trans[of _ "n mod 64" 64])

lemma full_mask_small: "n < 64 \<Longrightarrow> full_mask n = mask n"
  by (simp add: full_mask_eq_mask)

lemma sint_full_mask: "sint (full_mask n) = 2 ^ (n mod 64) - 1"
proof -
  let ?k = "n mod 64"
  have k: "?k \<le> 63" by simp
  have u: "uint (full_mask n) = 2 ^ ?k - 1"
    unfolding full_mask_eq_mask uint_mask_eq by (simp add: mask_eq_exp_minus_1 min_def)
  have "(2::int) ^ ?k \<le> 2 ^ 63" using k by (intro power_increasing) simp_all
  moreover have "(0::int) < 2 ^ ?k" by simp
  ultimately have "signed_take_bit 63 (2 ^ ?k - 1 :: int) = 2 ^ ?k - 1"
    by (intro signed_take_bit_int_eq_self) linarith+
  then show ?thesis by (simp add: sint_uint u)
qed

subsection \<open>The exhaustive oracle\<close>

text \<open>
  \<^verbatim>\<open>
  def get_bit_length(x):
      length = 0
      while x:
          length += 1
          x = x >> 1
      return length
  \<close>
  On a negative \<open>x\<close> the arithmetic shift keeps the sign bit and the loop never ends, so
  the loop is a partial function: \<open>None\<close> is "does not return".
\<close>

partial_function (option) get_bit_length_loop :: "bitmask \<Rightarrow> nat \<Rightarrow> nat option" where
  "get_bit_length_loop x len =
     (if x \<noteq> 0 then get_bit_length_loop (signed_drop_bit 1 x) (len + 1) else Some len)"

definition get_bit_length :: "bitmask \<Rightarrow> nat option" where
  "get_bit_length x = get_bit_length_loop x 0"

lemma bit_shifted:
  fixes x :: bitmask
  shows "bit (signed_drop_bit 1 x) 63 = bit x 63"
    and "k < 63 \<Longrightarrow> bit (signed_drop_bit 1 x) k = bit x (Suc k)"
  by (simp_all add: bit_signed_drop_bit_iff)

lemma get_bit_length_loop_sound:
  assumes "get_bit_length_loop x len = Some l"
  shows "\<not> bit x 63 \<and> (x = 0 \<longrightarrow> l = len) \<and> (x \<noteq> 0 \<longrightarrow> len < l \<and> bit x (l - len - 1))"
proof -
  let ?P = "\<lambda>x len l. \<not> bit x 63 \<and> (x = 0 \<longrightarrow> l = len) \<and> (x \<noteq> 0 \<longrightarrow> len < l \<and> bit x (l - len - 1))"
  have "(case (x, len) of (x, len) \<Rightarrow> ?P x len) l"
  proof (rule get_bit_length_loop.raw_induct[where P = ?P and xa = "(x, len)" and y = l])
    fix f :: "bitmask \<Rightarrow> nat \<Rightarrow> nat option" and x len l
    assume ih: "\<And>x len l. f x len = Some l \<Longrightarrow> ?P x len l"
      and eq: "(if x \<noteq> 0 then f (signed_drop_bit 1 x) (len + 1) else Some len) = Some l"
    show "?P x len l"
    proof (cases "x = 0")
      case True with eq show ?thesis by simp
    next
      case False
      let ?y = "signed_drop_bit 1 x"
      from False eq have r: "f ?y (len + 1) = Some l" by simp
      note h = ih[OF r]
      have nx: "\<not> bit x 63" using h bit_shifted(1)[of x] by simp
      show ?thesis
      proof (cases "?y = 0")
        case True
        then have l: "l = len + 1" using h by simp
        have "\<And>k. k \<noteq> 0 \<Longrightarrow> \<not> bit x k"
        proof -
          fix k :: nat assume "k \<noteq> 0"
          then obtain k' where k: "k = Suc k'" by (cases k) auto
          show "\<not> bit x k"
          proof (cases "k' < 63")
            case True
            then show ?thesis using bit_shifted(2)[of k' x] \<open>?y = 0\<close> k by simp
          next
            case False
            then show ?thesis using k bit_imp_le_length[of x k] by auto
          qed
        qed
        moreover obtain k where "bit x k" using False word_nonzero_bit by blast
        ultimately have "bit x 0" by (cases "k = 0") auto
        then show ?thesis using nx l False by simp
      next
        case F2: False
        then have a: "len + 1 < l" "bit ?y (l - (len + 1) - 1)" using h by simp_all
        let ?k = "l - (len + 1) - 1"
        have "?k \<noteq> 63" using a(2) h by auto
        moreover have "?k < 64" using bit_imp_le_length[OF a(2)] by simp
        ultimately have "?k < 63" by simp
        then have "bit x (Suc ?k)" using bit_shifted(2)[of ?k x] a(2) by simp
        moreover have "Suc ?k = l - len - 1" using a(1) by simp
        ultimately show ?thesis using nx False a(1) by simp
      qed
    qed
  qed (use assms in simp)
  then show ?thesis by simp
qed

lemma get_bit_length_loop_total:
  "\<not> bit x 63 \<Longrightarrow> \<exists>l. get_bit_length_loop x len = Some l"
proof (induction "unat x" arbitrary: x len rule: less_induct)
  case less
  show ?case
  proof (cases "x = 0")
    case True
    then show ?thesis by (subst get_bit_length_loop.simps) simp
  next
    case False
    let ?y = "signed_drop_bit 1 x"
    have ny: "\<not> bit ?y 63" using less(2) bit_shifted(1)[of x] by simp
    have "?y = drop_bit 1 x"
    proof (rule bit_word_eqI)
      fix k assume "k < LENGTH(64)"
      then have "k < 63 \<or> k = 63" by auto
      then show "bit ?y k = bit (drop_bit 1 x) k"
        using bit_shifted(1)[of x] bit_shifted(2)[of k x] less(2) bit_imp_le_length[of x 64]
        by (auto simp: bit_drop_bit_eq)
    qed
    moreover have "unat (drop_bit 1 x) = unat x div 2"
      by (simp add: drop_bit_eq_div unat_div)
    ultimately have "unat ?y = unat x div 2" by (simp only:)
    moreover have "unat x \<noteq> 0" using False by (simp add: unat_eq_0)
    ultimately have "unat ?y < unat x" by simp
    from less(1)[OF this ny] obtain l where "get_bit_length_loop ?y (len + 1) = Some l" by blast
    then show ?thesis using False by (subst get_bit_length_loop.simps) simp
  qed
qed

lemma get_bit_length_negative: "bit x 63 \<Longrightarrow> get_bit_length x = None"
  using get_bit_length_loop_sound[of x 0] by (cases "get_bit_length x") (auto simp: get_bit_length_def)

lemma get_bit_length_Some:
  "get_bit_length x = Some l \<Longrightarrow> x \<noteq> 0 \<Longrightarrow> bit x (l - 1) \<and> 0 < l"
  using get_bit_length_loop_sound[of x 0 l] by (simp add: get_bit_length_def)

lemma get_bit_length_total: "\<not> bit x 63 \<Longrightarrow> \<exists>l. get_bit_length x = Some l"
  by (simp add: get_bit_length_def get_bit_length_loop_total)


text \<open>
  \<^verbatim>\<open>
  def exhaustive_search_njit(mask, current_score, comp, n, best_score, best_pairs,
                             current_pairs, allocations):
      if mask == 0:
          if current_score > best_score[0]:
              best_score[0] = current_score
              (best_pairs becomes a copy of current_pairs)
          return
      i = get_bit_length(mask & -mask) - 1
      new_mask = mask & ~(1 << i)
      candidate = new_mask
      while candidate:
          j = get_bit_length(candidate & -candidate) - 1
          candidate = candidate & ~(1 << j)
          allocations[0] += 1
          next_mask = new_mask & ~(1 << j)
          current_pairs.append((i, j))
          exhaustive_search_njit(next_mask, current_score + comp[i, j], ...)
          current_pairs.pop()
  \<close>
  The \<open>while\<close> loop is \<open>candidate_loop\<close>. On a non-zero word \<open>get_bit_length\<close> returns at
  least 1 where it returns, so \<open>- 1\<close> stays a natural number. The search shares the record of the branch and
  bound search and leaves \<open>memo\<close> and \<open>trail\<close> alone. Where \<open>get_bit_length\<close> does not
  return, neither does the search.
\<close>

function exhaustive_search_njit ::
    "matrix \<Rightarrow> nat \<Rightarrow> bitmask \<Rightarrow> real \<Rightarrow> bb_state \<Rightarrow> bb_state option"
  and candidate_loop ::
    "matrix \<Rightarrow> nat \<Rightarrow> nat \<Rightarrow> bitmask \<Rightarrow> bitmask \<Rightarrow> real \<Rightarrow> bb_state \<Rightarrow> bb_state option"
where
  "exhaustive_search_njit cmat n msk current_score st =
     (if msk = 0 then Some (record_best current_score st)
      else
        (case get_bit_length (msk AND - msk) of
           None \<Rightarrow> None
         | Some l \<Rightarrow>
             (let i = l - 1;
                  new_mask = msk AND NOT (shl1 i)
              in candidate_loop cmat n i new_mask new_mask current_score st)))"
| "candidate_loop cmat n i new_mask candidate current_score st =
     (if candidate = 0 then Some st
      else
        (case get_bit_length (candidate AND - candidate) of
           None \<Rightarrow> None
         | Some l \<Rightarrow>
             (let j = l - 1;
                  candidate' = candidate AND NOT (shl1 j);
                  st1 = st\<lparr>allocations := allocations st + 1\<rparr>;
                  next_mask = new_mask AND NOT (shl1 j);
                  st2 = st1\<lparr>current_pairs := current_pairs st1 @ [(i, j)]\<rparr>
              in (case exhaustive_search_njit cmat n next_mask (current_score + cmat i j) st2 of
                    None \<Rightarrow> None
                  | Some st3 \<Rightarrow>
                      candidate_loop cmat n i new_mask candidate' current_score
                        (st3\<lparr>current_pairs := butlast (current_pairs st3)\<rparr>)))))"
  by pat_completeness auto

lemma and_neg_nonzero: "c \<noteq> 0 \<Longrightarrow> c AND - c \<noteq> 0" for c :: bitmask
proof
  assume c: "c \<noteq> 0" and z: "c AND - c = 0"
  have "c + (- c) = c OR - c" using z by (rule disjunctive_add_eq_or)
  then have "c OR - c = 0" by simp
  then show False using c by (simp add: or_eq_0_iff)
qed

lemma lowest_bit_member:
  assumes "get_bit_length (c AND - c) = Some l" "c \<noteq> 0"
  shows "l - 1 \<in> ents c"
proof -
  have "bit (c AND - c) (l - 1)"
    using get_bit_length_Some[OF assms(1)] and_neg_nonzero[OF assms(2)] by simp
  then show ?thesis by (simp add: ents_def bit_and_iff)
qed

lemma popcount_clear_member: "j \<in> ents c \<Longrightarrow> popcount (c AND NOT (shl1 j)) < popcount c"
  using ents_member_small[of j c] by (intro popcount_clear_less) simp_all

lemma popcount_clear_le: "popcount (c AND NOT (shl1 j)) \<le> popcount c"
  unfolding popcount_card ents_clear_mod by (intro card_mono finite_ents) auto

termination exhaustive_search_njit
proof (relation "inv_image (less_than <*lex*> less_than)
    (\<lambda>a. case a of
        Inl (cmat, n, msk, cur, st) \<Rightarrow> (popcount msk, 0)
      | Inr (cmat, n, i, new_mask, candidate, cur, st) \<Rightarrow> (popcount new_mask, Suc (popcount candidate)))",
    goal_cases)
  case 1
  show ?case by (intro wf_inv_image wf_lex_prod wf_less_than)
next
  case (2 cmat n msk current_score st l i new_mask)
  then have "l - 1 \<in> ents msk" using lowest_bit_member by blast
  then show ?case using 2 popcount_clear_member[of "l - 1" msk] by (simp)
next
  case (3 cmat n i new_mask candidate current_score st l j c' st1 next_mask st2)
  show ?case using 3 popcount_clear_le[of new_mask j] by auto
next
  case (4 cmat n i new_mask candidate current_score st l j c' st1 next_mask st2 st3)
  then have "l - 1 \<in> ents candidate" using lowest_bit_member by blast
  then show ?case using 4 popcount_clear_member[of "l - 1" candidate] by (simp)
qed

declare exhaustive_search_njit.simps [simp del] candidate_loop.simps [simp del]

text \<open>
  \<^verbatim>\<open>
  def exhaustive_search_wrapper(comp, n):
      best_score = np.array([-1e9], dtype=np.float64)
      ...
      full_mask = np.int64((1 << n) - 1)
      exhaustive_search_njit(full_mask, 0.0, comp, n, best_score, best_pairs, current_pairs, allocations)
      return best_score[0], best_pairs, allocations[0]
  \<close>
\<close>

definition exhaustive_search_wrapper ::
    "matrix \<Rightarrow> nat \<Rightarrow> (real \<times> pair list \<times> 64 word) option" where
  "exhaustive_search_wrapper cmat n =
     (case exhaustive_search_njit cmat n (full_mask n) 0 init_state of
        None \<Rightarrow> None
      | Some st \<Rightarrow> Some (best_score st, best_pairs st, allocations st))"

section \<open>Pairings and what a search records\<close>

text \<open>
  A pairing of a set of students lists every student of the set in exactly one pair.
  Its score is the sum of the matrix entries of its pairs.
\<close>

definition ids :: "pair list \<Rightarrow> nat list" where
  "ids ps = concat (map (\<lambda>(a, b). [a, b]) ps)"

definition pairing :: "nat set \<Rightarrow> pair list \<Rightarrow> bool" where
  "pairing S ps \<longleftrightarrow> distinct (ids ps) \<and> set (ids ps) = S"

definition score :: "matrix \<Rightarrow> pair list \<Rightarrow> real" where
  "score cmat ps = sum_list (map (\<lambda>(a, b). cmat a b) ps)"

lemma ids_simps [simp]: "ids [] = []" "ids ((a, b) # ps) = a # b # ids ps"
  by (simp_all add: ids_def)

lemma score_simps [simp]: "score cmat [] = 0" "score cmat ((a, b) # ps) = cmat a b + score cmat ps"
  by (simp_all add: score_def)

lemma first_unmatched_found_mod:
  "k mod 64 \<in> ents msk \<Longrightarrow> i \<le> k \<Longrightarrow> k < n \<Longrightarrow>
   first_unmatched msk n i mod 64 \<in> ents msk \<and> first_unmatched msk n i \<le> k \<and>
   i \<le> first_unmatched msk n i"
proof (induction msk n i rule: first_unmatched.induct)
  case (1 msk n i)
  show ?case
  proof (cases "msk AND shl1 i \<noteq> 0")
    case True
    then have "first_unmatched msk n i = i" using 1(3,4) by (subst first_unmatched.simps) simp
    moreover have "i mod 64 \<in> ents msk" using True bit_test[of msk i] by (simp add: ents_def)
    ultimately show ?thesis using 1(3) by simp
  next
    case False
    then have "i mod 64 \<notin> ents msk" using bit_test[of msk i] by (simp add: ents_def)
    then have "i + 1 \<le> k" using 1(2,3) by (cases "i = k") auto
    moreover have "i < n" using 1(3,4) by simp
    ultimately have "first_unmatched msk n (i + 1) mod 64 \<in> ents msk \<and>
        first_unmatched msk n (i + 1) \<le> k \<and> i + 1 \<le> first_unmatched msk n (i + 1)"
      using 1(1)[OF \<open>i < n\<close>] False 1(2,4) by simp
    moreover have "first_unmatched msk n i = first_unmatched msk n (i + 1)"
      using False \<open>i < n\<close> by (subst first_unmatched.simps) simp
    ultimately show ?thesis by simp
  qed
qed

text \<open>
  Where some index below \<open>n\<close> tests positive, the pivot is the lowest set bit of the mask:
  it is below 64, and it is below \<open>n\<close>.
\<close>

lemma first_unmatched_pivot:
  assumes "k < n" "k mod 64 \<in> ents msk"
  shows "first_unmatched msk n 0 \<in> ents msk" "first_unmatched msk n 0 \<le> k mod 64"
    "first_unmatched msk n 0 < n"
proof -
  let ?r = "first_unmatched msk n 0"
  have "k mod 64 \<le> k" by simp
  then have lt: "k mod 64 < n" using assms(1) by simp
  have f: "?r mod 64 \<in> ents msk \<and> ?r \<le> k mod 64 \<and> 0 \<le> ?r"
    using assms(2) lt by (intro first_unmatched_found_mod) simp_all
  then show "?r \<le> k mod 64" by simp
  then have "?r < 64" using mod_less_divisor[of 64 k] by linarith
  then show "?r \<in> ents msk" using f by simp
  show "?r < n" using f lt by simp
qed

lemma first_unmatched_found:
  "k \<in> ents msk \<Longrightarrow> k < n \<Longrightarrow>
   first_unmatched msk n 0 \<in> ents msk \<and> first_unmatched msk n 0 \<le> k"
  using first_unmatched_pivot[of k n msk] ents_member_small[of k msk] by simp

lemma candidate_facts_mod:
  assumes "j \<in> set (sorted_candidates srt cmat n i nm)"
    and "i = first_unmatched msk n 0" and "nm = msk AND NOT (shl1 i)"
  shows "j mod 64 \<in> ents msk" "j mod 64 \<noteq> i" "j < n" "i \<in> ents msk" "i < n"
    "ents (nm AND NOT (shl1 j)) = ents msk - {i, j mod 64}"
proof -
  from assms(1) have j: "j < n" "j mod 64 \<in> ents nm"
    unfolding set_sorted_candidates set_candidate_arr by simp_all
  from j(2) show jm: "j mod 64 \<in> ents msk" unfolding assms(3) ents_clear_mod by simp
  show "j < n" by fact
  show i: "i \<in> ents msk" "i < n"
    unfolding assms(2) using first_unmatched_pivot[OF j(1) jm] by simp_all
  then have i64: "i < 64" using ents_member_small by blast
  then have nm: "ents nm = ents msk - {i}" unfolding assms(3) by (rule ents_clear)
  show "j mod 64 \<noteq> i" using j(2) unfolding nm by auto
  show "ents (nm AND NOT (shl1 j)) = ents msk - {i, j mod 64}"
    unfolding ents_clear_mod nm by auto
qed

lemma candidate_facts:
  assumes "j \<in> set (sorted_candidates srt cmat n i nm)"
    and "i = first_unmatched msk n 0" and "nm = msk AND NOT (shl1 i)" and "n \<le> 64"
  shows "j \<in> ents msk" "j \<noteq> i" "j < n" "i \<in> ents msk" "i < n"
    "ents (nm AND NOT (shl1 j)) = ents msk - {i, j}"
proof -
  note cf = candidate_facts_mod[OF assms(1,2,3)]
  have "j mod 64 = j" using cf(3) assms(4) by simp
  then show "j \<in> ents msk" "j \<noteq> i" "j < n" "i \<in> ents msk" "i < n"
    "ents (nm AND NOT (shl1 j)) = ents msk - {i, j}"
    using cf by simp_all
qed

lemma search_induct [case_names node]:
  assumes "\<And>msk. (\<And>j. msk \<noteq> 0 \<Longrightarrow>
              j \<in> set (sorted_candidates srt cmat n (first_unmatched msk n 0)
                        (msk AND NOT (shl1 (first_unmatched msk n 0)))) \<Longrightarrow>
              P ((msk AND NOT (shl1 (first_unmatched msk n 0))) AND NOT (shl1 j)))
           \<Longrightarrow> P msk"
  shows "P msk"
proof (induction "popcount msk" arbitrary: msk rule: less_induct)
  case less
  show ?case
  proof (rule assms)
    fix j
    let ?i = "first_unmatched msk n 0"
    let ?nm = "msk AND NOT (shl1 ?i)"
    assume "j \<in> set (sorted_candidates srt cmat n ?i ?nm)"
    then have "ents (?nm AND NOT (shl1 j)) = ents msk - {?i, j mod 64}" "j mod 64 \<in> ents msk"
      using candidate_facts_mod[of j srt cmat n ?i ?nm msk] by simp_all
    then have "card (ents (?nm AND NOT (shl1 j))) < card (ents msk)"
      by (intro psubset_card_mono finite_ents) auto
    then show "P (?nm AND NOT (shl1 j))"
      using less by (simp add: popcount_card)
  qed
qed

lemma fold_invariant:
  "(\<And>x s. x \<in> set xs \<Longrightarrow> I s \<Longrightarrow> I (f x s)) \<Longrightarrow> I s \<Longrightarrow> I (fold f xs s)"
  by (induction xs arbitrary: s) simp_all

lemma prune_snd:
  "snd (prune cmat n msk cur st) = st \<or>
   snd (prune cmat n msk cur st) = st\<lparr>memo := (memo st)(msk \<mapsto> compute_upper_bound msk cmat n)\<rparr>"
  by (simp add: prune_def Let_def split: option.splits)

lemma prune_fields [simp]:
  "best_score (snd (prune cmat n msk cur st)) = best_score st"
  "best_pairs (snd (prune cmat n msk cur st)) = best_pairs st"
  "current_pairs (snd (prune cmat n msk cur st)) = current_pairs st"
  "allocations (snd (prune cmat n msk cur st)) = allocations st"
  "trail (snd (prune cmat n msk cur st)) = trail st"
  using prune_snd[of cmat n msk cur st] by auto

definition improved :: "matrix \<Rightarrow> nat set \<Rightarrow> real \<Rightarrow> bb_state \<Rightarrow> bb_state \<Rightarrow> bool" where
  "improved cmat S cur st st' \<longleftrightarrow>
     current_pairs st' = current_pairs st \<and> best_score st \<le> best_score st' \<and>
     ((best_score st' = best_score st \<and> best_pairs st' = best_pairs st) \<or>
      (\<exists>m. pairing S m \<and> best_pairs st' = current_pairs st @ m \<and>
           best_score st' = cur + score cmat m \<and> best_score st < best_score st'))"

lemma improved_branch:
  assumes I: "improved cmat S cur st s"
    and IH: "improved cmat (S - {i, j}) (cur + cmat i j)
               (s\<lparr>current_pairs := current_pairs s @ [(i, j)], allocations := allocations s + 1\<rparr>) s3"
    and ij: "i \<in> S" "j \<in> S" "i \<noteq> j"
  shows "improved cmat S cur st (s3\<lparr>current_pairs := butlast (current_pairs s3)\<rparr>)"
proof -
  let ?s2 = "s\<lparr>current_pairs := current_pairs s @ [(i, j)], allocations := allocations s + 1\<rparr>"
  have cp: "current_pairs s3 = current_pairs st @ [(i, j)]"
    using I IH by (simp add: improved_def)
  have le: "best_score s \<le> best_score s3" using IH by (simp add: improved_def)
  have le0: "best_score st \<le> best_score s" using I by (simp add: improved_def)
  from IH consider
    (same) "best_score s3 = best_score s" "best_pairs s3 = best_pairs s"
    | (better) m where "pairing (S - {i, j}) m" "best_pairs s3 = current_pairs ?s2 @ m"
        "best_score s3 = cur + cmat i j + score cmat m" "best_score s < best_score s3"
    by (auto simp: improved_def)
  then show ?thesis
  proof cases
    case same
    then show ?thesis using I cp by (auto simp: improved_def)
  next
    case better
    have "pairing S ((i, j) # m)"
      using better(1) ij by (auto simp: pairing_def)
    moreover have "best_pairs s3 = current_pairs st @ ((i, j) # m)"
      using better(2) I by (simp add: improved_def)
    moreover have "best_score s3 = cur + score cmat ((i, j) # m)"
      using better(3) by simp
    moreover have "best_score st < best_score s3" using better(4) le0 by simp
    ultimately show ?thesis using cp
      unfolding improved_def by (intro conjI disjI2 exI[of _ "(i, j) # m"]) simp_all 
  qed
qed

lemma search_improved:
  assumes n64: "n \<le> 64"
  shows "improved cmat (ents msk) cur st (search srt cmat n msk cur st)"
proof (induction msk arbitrary: cur st rule: search_induct[where srt=srt and cmat=cmat and n=n])
  case (node msk)
  show ?case
  proof (cases "msk = 0")
    case True
    have "pairing {} []" by (simp add: pairing_def)
    then show ?thesis using True
      by (auto simp add: search_zero record_best_def improved_def ents_def)
  next
    case False
    let ?st = "st\<lparr>trail := trail st @ [msk]\<rparr>"
    let ?p = "prune cmat n msk cur ?st"
    let ?i = "first_unmatched msk n 0"
    let ?nm = "msk AND NOT (shl1 ?i)"
    have base: "improved cmat (ents msk) cur st (snd ?p)" by (simp add: improved_def)
    have "improved cmat (ents msk) cur st (expand srt cmat n msk cur (snd ?p))"
      unfolding expand_def Let_def
    proof (rule fold_invariant[where I="improved cmat (ents msk) cur st"])
      fix j s
      assume j: "j \<in> set (sorted_candidates srt cmat n ?i ?nm)"
        and I: "improved cmat (ents msk) cur st s"
      note cf = candidate_facts[OF j refl refl n64]
      let ?s2 = "s\<lparr>current_pairs := current_pairs s @ [(?i, j)], allocations := allocations s + 1\<rparr>"
      have "improved cmat (ents (?nm AND NOT (shl1 j))) (cur + cmat ?i j) ?s2
              (search srt cmat n (?nm AND NOT (shl1 j)) (cur + cmat ?i j) ?s2)"
        by (rule node[OF False j])
      then have "improved cmat (ents msk - {?i, j}) (cur + cmat ?i j) ?s2
              (search srt cmat n (?nm AND NOT (shl1 j)) (cur + cmat ?i j) ?s2)"
        unfolding cf(6) .
      then have "improved cmat (ents msk) cur st
              ((search srt cmat n (?nm AND NOT (shl1 j)) (cur + cmat ?i j) ?s2)
                 \<lparr>current_pairs := butlast (current_pairs
                    (search srt cmat n (?nm AND NOT (shl1 j)) (cur + cmat ?i j) ?s2))\<rparr>)"
        using I cf(1,2,4) by (intro improved_branch[where i="?i" and j=j and s=s]) simp_all
      then show "improved cmat (ents msk) cur st (branch srt cmat n ?i ?nm cur j s)"
        unfolding branch_def Let_def .
    qed (rule base)
    then show ?thesis using base by (simp add: search_nonzero'[OF False] Let_def)
  qed
qed

subsection \<open>Splitting a pairing at a student\<close>

text \<open>Symmetric matrices and matrices without negative entries, below \<open>n\<close>.\<close>

definition symmetric :: "matrix \<Rightarrow> nat \<Rightarrow> bool" where
  "symmetric cmat n \<longleftrightarrow> (\<forall>i<n. \<forall>j<n. cmat i j = cmat j i)"

definition nonnegative :: "matrix \<Rightarrow> nat \<Rightarrow> bool" where
  "nonnegative cmat n \<longleftrightarrow> (\<forall>i<n. \<forall>j<n. 0 \<le> cmat i j)"

lemma ids_append [simp]: "ids (xs @ ys) = ids xs @ ids ys"
  by (simp add: ids_def)

lemma score_append [simp]: "score cmat (xs @ ys) = score cmat xs + score cmat ys"
  by (simp add: score_def)

lemma pairing_split:
  assumes m: "pairing S m" and i: "i \<in> S" and sym: "symmetric cmat n" and S: "S \<subseteq> {0..<n}"
  obtains j m' where "j \<in> S" "j \<noteq> i" "pairing (S - {i, j}) m'"
    "score cmat m = cmat i j + score cmat m'"
proof -
  from m i have "i \<in> set (ids m)" by (simp add: pairing_def)
  then obtain a b where ab: "(a, b) \<in> set m" "i = a \<or> i = b"
    by (auto simp: ids_def)
  then obtain xs ys where split: "m = xs @ (a, b) # ys" by (meson split_list)
  let ?m' = "xs @ ys"
  have d: "distinct (ids xs @ a # b # ids ys)" and s: "set (ids xs @ a # b # ids ys) = S"
    using m by (simp_all add: pairing_def split)
  have p: "pairing (S - {a, b}) ?m'"
    using d s by (auto simp: pairing_def)
  have ab_in: "a \<in> S" "b \<in> S" "a \<noteq> b" using d s by auto
  have sc: "score cmat m = cmat a b + score cmat ?m'" by (simp add: split)
  show thesis
  proof (cases "i = a")
    case True
    show thesis
      by (rule that[of b ?m']) (use True ab_in p sc in auto)
  next
    case False
    then have ib: "i = b" using ab(2) by simp
    have "a < n" "b < n" using ab_in S by auto
    then have "cmat a b = cmat b a" using sym by (simp add: symmetric_def)
    moreover have "S - {a, b} = S - {b, a}" by auto
    ultimately show thesis
      by (intro that[of a ?m']) (use ib ab_in p sc in auto)
  qed
qed

subsection \<open>The bound is admissible\<close>

lemma best_partner_fold_ge:
  "b \<le> fold (\<lambda>j best_val. if c j then (if (g j :: real) > best_val then g j else best_val) else best_val) xs b"
  by (induction xs arbitrary: b) (auto intro: order_trans[rotated] less_imp_le)

lemma best_partner_fold_member:
  "j \<in> set xs \<Longrightarrow> c j \<Longrightarrow>
   g j \<le> fold (\<lambda>j best_val. if c j then (if (g j :: real) > best_val then g j else best_val) else best_val) xs b"
proof (induction xs arbitrary: b)
  case Nil then show ?case by simp
next
  case (Cons x xs)
  let ?f = "\<lambda>j best_val. if c j then (if (g j :: real) > best_val then g j else best_val) else best_val"
  show ?case
  proof (cases "j = x")
    case True
    have "g j \<le> ?f x b" using True Cons(3) by simp
    also have "\<dots> \<le> fold ?f xs (?f x b)" by (rule best_partner_fold_ge)
    finally show ?thesis by simp
  next
    case False
    then have "j \<in> set xs" using Cons(2) by simp
    from Cons(1)[OF this Cons(3)] show ?thesis by simp
  qed
qed

lemma best_partner_nonneg: "0 \<le> best_partner msk cmat n i"
  unfolding best_partner_def by (rule best_partner_fold_ge)

lemma best_partner_ge:
  assumes "j < n" "j \<in> ents msk" "i \<noteq> j"
  shows "cmat i j \<le> best_partner msk cmat n i"
proof -
  have "msk AND shl1 j \<noteq> 0 \<and> i \<noteq> j"
    using assms bit_test_small[OF ents_member_small[OF assms(2)], of msk] by (simp add: ents_def)
  then show ?thesis unfolding best_partner_def
    by (intro best_partner_fold_member[where c="\<lambda>j. msk AND shl1 j \<noteq> 0 \<and> i \<noteq> j" and g="cmat i"])
       (use assms in simp_all)
qed

lemma fold_cond_add:
  "fold (\<lambda>i (a::real). if c i then a + g i else a) xs a0 = a0 + sum_list (map (\<lambda>i. if c i then g i else 0) xs)"
  by (induction xs arbitrary: a0) simp_all

lemma compute_upper_bound_sum:
  assumes "ents msk \<subseteq> {0..<n}" "n \<le> 64"
  shows "compute_upper_bound msk cmat n = (\<Sum>i\<in>ents msk. best_partner msk cmat n i) / 2"
proof -
  let ?g = "best_partner msk cmat n"
  have m: "map (\<lambda>i. if msk AND shl1 i \<noteq> 0 then ?g i else 0) [0..<n]
      = map (\<lambda>i. if i \<in> ents msk then ?g i else 0) [0..<n]"
    using assms(2) by (intro map_cong refl) (simp add: bit_test_small ents_def)
  have "compute_upper_bound msk cmat n
      = sum_list (map (\<lambda>i. if i \<in> ents msk then ?g i else 0) [0..<n]) / 2"
    unfolding compute_upper_bound_def fold_cond_add m by simp
  also have "sum_list (map (\<lambda>i. if i \<in> ents msk then ?g i else 0) [0..<n])
      = (\<Sum>i\<in>{0..<n}. if i \<in> ents msk then ?g i else 0)"
    by (simp add: sum_list_distinct_conv_sum_set)
  also have "\<dots> = (\<Sum>i\<in>ents msk. ?g i)"
    using assms by (simp add: sum.inter_restrict[symmetric] Int_absorb1)
  finally show ?thesis .
qed

lemma twice_score_le:
  assumes "distinct (ids m)" "set (ids m) \<subseteq> ents msk" "ents msk \<subseteq> {0..<n}" "symmetric cmat n"
  shows "2 * score cmat m \<le> sum_list (map (best_partner msk cmat n) (ids m))"
  using assms(1,2)
proof (induction m)
  case Nil then show ?case by simp
next
  case (Cons p m)
  obtain a b where p: "p = (a, b)" by (cases p)
  have ab: "a \<in> ents msk" "b \<in> ents msk" "a \<noteq> b" using Cons(2,3) p by auto
  then have lt: "a < n" "b < n" using assms(3) by auto
  have "cmat a b \<le> best_partner msk cmat n a" using ab lt by (intro best_partner_ge) auto
  moreover have "cmat b a \<le> best_partner msk cmat n b" using ab lt by (intro best_partner_ge) auto
  moreover have "cmat a b = cmat b a" using assms(4) lt by (simp add: symmetric_def)
  moreover have "2 * score cmat m \<le> sum_list (map (best_partner msk cmat n) (ids m))"
    using Cons p by simp
  ultimately show ?case by (simp add: p)
qed

lemma upper_bound_admissible:
  assumes "pairing (ents msk) m" "ents msk \<subseteq> {0..<n}" "symmetric cmat n" "n \<le> 64"
  shows "score cmat m \<le> compute_upper_bound msk cmat n"
proof -
  have "2 * score cmat m \<le> sum_list (map (best_partner msk cmat n) (ids m))"
    using assms by (intro twice_score_le) (auto simp: pairing_def)
  also have "\<dots> = (\<Sum>i\<in>ents msk. best_partner msk cmat n i)"
    using assms(1) by (simp add: pairing_def sum_list_distinct_conv_sum_set)
  finally show ?thesis using compute_upper_bound_sum[OF assms(2,4), of cmat] by simp
qed

subsection \<open>The cache and the completeness of the pruned search\<close>

definition memo_ok :: "matrix \<Rightarrow> nat \<Rightarrow> bb_state \<Rightarrow> bool" where
  "memo_ok cmat n st \<longleftrightarrow> (\<forall>m v. memo st m = Some v \<longrightarrow> v = compute_upper_bound m cmat n)"

lemma memo_ok_init: "memo_ok cmat n init_state"
  by (simp add: memo_ok_def init_state_def)

lemma memo_ok_update [simp]:
  "memo_ok cmat n (st\<lparr>current_pairs := cp\<rparr>) = memo_ok cmat n st"
  "memo_ok cmat n (st\<lparr>allocations := al\<rparr>) = memo_ok cmat n st"
  "memo_ok cmat n (st\<lparr>trail := tr\<rparr>) = memo_ok cmat n st"
  "memo_ok cmat n (st\<lparr>best_score := bs\<rparr>) = memo_ok cmat n st"
  "memo_ok cmat n (st\<lparr>best_pairs := bp\<rparr>) = memo_ok cmat n st"
  by (simp_all add: memo_ok_def)

lemma prune_memo_ok: "memo_ok cmat n st \<Longrightarrow> memo_ok cmat n (snd (prune cmat n msk cur st))"
  by (auto simp add: prune_def Let_def memo_ok_def split: option.splits)

lemma prune_fst:
  "memo_ok cmat n st \<Longrightarrow>
   fst (prune cmat n msk cur st) \<longleftrightarrow> cur + compute_upper_bound msk cmat n \<le> best_score st"
  by (auto simp add: prune_def Let_def memo_ok_def split: option.splits)

lemma search_memo_ok:
  "memo_ok cmat n st \<Longrightarrow> memo_ok cmat n (search srt cmat n msk cur st)"
proof (induction msk arbitrary: cur st rule: search_induct[where srt=srt and cmat=cmat and n=n])
  case (node msk)
  show ?case
  proof (cases "msk = 0")
    case True
    then show ?thesis using node(2) by (simp add: search_zero record_best_def)
  next
    case False
    let ?p = "prune cmat n msk cur (st\<lparr>trail := trail st @ [msk]\<rparr>)"
    have base: "memo_ok cmat n (snd ?p)" using node(2) by (intro prune_memo_ok) simp
    have "memo_ok cmat n (expand srt cmat n msk cur (snd ?p))"
      unfolding expand_def Let_def
    proof (rule fold_invariant[where I="memo_ok cmat n"])
      fix j s
      assume "j \<in> set (sorted_candidates srt cmat n (first_unmatched msk n 0)
                (msk AND NOT (shl1 (first_unmatched msk n 0))))" and "memo_ok cmat n s"
      then show "memo_ok cmat n (branch srt cmat n (first_unmatched msk n 0)
                (msk AND NOT (shl1 (first_unmatched msk n 0))) cur j s)"
        unfolding branch_def Let_def using node(1)[OF False] by simp
    qed (rule base)
    then show ?thesis using base by (simp add: search_nonzero'[OF False] Let_def)
  qed
qed

lemma fold_reaches:
  assumes "x \<in> set xs"
    and "\<And>y s. y \<in> set xs \<Longrightarrow> I s \<Longrightarrow> I (f y s)"
    and "\<And>s. I s \<Longrightarrow> Q (f x s)"
    and "\<And>y s. y \<in> set xs \<Longrightarrow> I s \<Longrightarrow> Q s \<Longrightarrow> Q (f y s)"
    and "I s"
  shows "Q (fold f xs s)"
proof -
  have keep: "\<And>ys s. set ys \<subseteq> set xs \<Longrightarrow> I s \<Longrightarrow> Q s \<Longrightarrow> Q (fold f ys s)"
  proof -
    fix ys s show "set ys \<subseteq> set xs \<Longrightarrow> I s \<Longrightarrow> Q s \<Longrightarrow> Q (fold f ys s)"
      by (induction ys arbitrary: s) (auto intro: assms(2,4))
  qed
  have "\<And>ys s. set ys \<subseteq> set xs \<Longrightarrow> x \<in> set ys \<Longrightarrow> I s \<Longrightarrow> Q (fold f ys s)"
  proof -
    fix ys s show "set ys \<subseteq> set xs \<Longrightarrow> x \<in> set ys \<Longrightarrow> I s \<Longrightarrow> Q (fold f ys s)"
    proof (induction ys arbitrary: s)
      case Nil then show ?case by simp
    next
      case (Cons y ys)
      show ?case
      proof (cases "y = x")
        case True
        have "Q (f x s)" "I (f x s)" using Cons(4) assms(1,2,3) by auto
        then have "Q (fold f ys (f x s))" using keep[of ys "f x s"] Cons(2) by auto
        then show ?thesis using True by simp
      next
        case False
        then have "x \<in> set ys" using Cons(3) by simp
        moreover have "I (f y s)" using Cons(2,4) assms(2) by auto
        ultimately have "Q (fold f ys (f y s))" using Cons(1)[of "f y s"] Cons(2) by auto
        then show ?thesis by simp
      qed
    qed
  qed
  from this[of xs s] assms(1,5) show ?thesis by simp
qed

lemma branch_best_mono:
  "n \<le> 64 \<Longrightarrow> best_score s \<le> best_score (branch srt cmat n i nm cur j s)"
  using search_improved[of n cmat "nm AND NOT (shl1 j)" "cur + cmat i j"
      "s\<lparr>current_pairs := current_pairs s @ [(i, j)], allocations := allocations s + 1\<rparr>" srt]
  by (simp add: branch_def Let_def improved_def)

lemma branch_memo_ok: "memo_ok cmat n s \<Longrightarrow> memo_ok cmat n (branch srt cmat n i nm cur j s)"
  unfolding branch_def Let_def by (simp add: search_memo_ok)

lemma first_unmatched_member:
  assumes "msk \<noteq> 0" "ents msk \<subseteq> {0..<n}"
  shows "first_unmatched msk n 0 \<in> ents msk"
proof -
  obtain k where "k \<in> ents msk" using assms(1) ents_zero[of msk] by auto
  moreover then have "k < n" using assms(2) by auto
  ultimately show ?thesis using first_unmatched_found[of k msk n] by simp
qed

lemma search_complete:
  assumes "symmetric cmat n" and n64: "n \<le> 64"
  shows "memo_ok cmat n st \<Longrightarrow> ents msk \<subseteq> {0..<n} \<Longrightarrow> pairing (ents msk) m \<Longrightarrow>
     cur + score cmat m \<le> best_score (search srt cmat n msk cur st)"
proof (induction msk arbitrary: cur st m rule: search_induct[where srt=srt and cmat=cmat and n=n])
  case (node msk)
  show ?case
  proof (cases "msk = 0")
    case True
    then have "m = []" using node(4) by (cases m) (auto simp: pairing_def ents_def)
    then show ?thesis using True by (simp add: search_zero record_best_def)
  next
    case False
    let ?st = "st\<lparr>trail := trail st @ [msk]\<rparr>"
    let ?p = "prune cmat n msk cur ?st"
    let ?i = "first_unmatched msk n 0"
    let ?nm = "msk AND NOT (shl1 ?i)"
    have ok: "memo_ok cmat n ?st" using node(2) by simp
    have base: "memo_ok cmat n (snd ?p)" using ok by (rule prune_memo_ok)
    show ?thesis
    proof (cases "fst ?p")
      case True
      then have "cur + compute_upper_bound msk cmat n \<le> best_score st"
        using prune_fst[OF ok, of msk cur] by simp
      moreover have "score cmat m \<le> compute_upper_bound msk cmat n"
        using node(4,3) assms by (rule upper_bound_admissible)
      ultimately show ?thesis using True by (simp add: search_nonzero'[OF False] Let_def)
    next
      case pf: False
      have i: "?i \<in> ents msk" using False node(3) by (rule first_unmatched_member)
      have i64: "?i < 64" using i by (rule ents_member_small)
      from pairing_split[OF node(4) i assms(1) node(3)] obtain j m'
        where jm: "j \<in> ents msk" "j \<noteq> ?i" "pairing (ents msk - {?i, j}) m'"
          "score cmat m = cmat ?i j + score cmat m'" by blast
      have jc: "j \<in> set (sorted_candidates srt cmat n ?i ?nm)"
        unfolding set_sorted_candidates set_candidate_arr ents_clear[OF i64]
        using jm(1,2) node(3) ents_member_small[OF jm(1)] by auto
      note cf = candidate_facts[OF jc refl refl n64]
      have "cur + score cmat m \<le> best_score (expand srt cmat n msk cur (snd ?p))"
        unfolding expand_def Let_def
      proof (rule fold_reaches[where x=j and I="memo_ok cmat n"
              and Q="\<lambda>s. cur + score cmat m \<le> best_score s"])
        show "j \<in> set (sorted_candidates srt cmat n ?i ?nm)" by (rule jc)
        show "\<And>y s. memo_ok cmat n s \<Longrightarrow> memo_ok cmat n (branch srt cmat n ?i ?nm cur y s)"
          by (rule branch_memo_ok)
        show "memo_ok cmat n (snd ?p)" by (rule base)
        show "\<And>y s. cur + score cmat m \<le> best_score s \<Longrightarrow>
            cur + score cmat m \<le> best_score (branch srt cmat n ?i ?nm cur y s)"
          using branch_best_mono[OF n64] order_trans by blast
        fix s assume s: "memo_ok cmat n s"
        let ?s2 = "s\<lparr>current_pairs := current_pairs s @ [(?i, j)], allocations := allocations s + 1\<rparr>"
        have "(cur + cmat ?i j) + score cmat m' \<le>
            best_score (search srt cmat n (?nm AND NOT (shl1 j)) (cur + cmat ?i j) ?s2)"
        proof (rule node(1)[OF False jc])
          show "memo_ok cmat n ?s2" using s by simp
          show "ents (?nm AND NOT (shl1 j)) \<subseteq> {0..<n}" unfolding cf(6) using node(3) by auto
          show "pairing (ents (?nm AND NOT (shl1 j))) m'" unfolding cf(6) by (rule jm(3))
        qed
        then show "cur + score cmat m \<le> best_score (branch srt cmat n ?i ?nm cur j s)"
          unfolding branch_def Let_def using jm(4) by (simp)
      qed
      then show ?thesis using pf by (simp add: search_nonzero'[OF False] Let_def)
    qed
  qed
qed

subsection \<open>Counting expansions, and the masks a search enters\<close>

lemma ents_full_mask: "ents (full_mask n) = {0..<n mod 64}"
  by (auto simp: ents_def bit_full_mask)

lemma ents_full_mask_small: "n < 64 \<Longrightarrow> ents (full_mask n) = {0..<n}"
  by (simp add: ents_full_mask)

lemma popcount_full_mask: "popcount (full_mask n) = n mod 64"
  by (simp add: popcount_card ents_full_mask)

text \<open>
  The number of pairing decisions of a full enumeration of \<open>c\<close> students: the first student
  tries each of the other \<open>c - 1\<close>, and each try enumerates the remaining \<open>c - 2\<close>.
\<close>

fun exhaustive_count :: "nat \<Rightarrow> nat" where
  "exhaustive_count 0 = 0"
| "exhaustive_count (Suc 0) = 0"
| "exhaustive_count (Suc (Suc k)) = Suc k * (1 + exhaustive_count k)"

lemma fold_counter:
  fixes a :: "'s \<Rightarrow> 64 word"
  assumes "\<And>x s. x \<in> set xs \<Longrightarrow> \<exists>k\<le>K. a (f x s) = a s + of_nat k"
  shows "\<exists>k\<le>length xs * K. a (fold f xs s) = a s + of_nat k"
  using assms
proof (induction xs arbitrary: s)
  case Nil then show ?case by simp
next
  case (Cons x xs)
  obtain k1 where k1: "k1 \<le> K" "a (f x s) = a s + of_nat k1" using Cons(2)[of x s] by auto
  obtain k2 where k2: "k2 \<le> length xs * K" "a (fold f xs (f x s)) = a (f x s) + of_nat k2"
    using Cons(1)[of "f x s"] Cons(2) by auto
  have "k1 + k2 \<le> length (x # xs) * K" using k1(1) k2(1) by simp
  moreover have "a (fold f (x # xs) s) = a s + of_nat (k1 + k2)" using k1(2) k2(2) by simp
  ultimately show ?case by blast
qed

lemma card_pair_removed:
  assumes "i \<in> ents msk" "j \<in> ents msk" "i \<noteq> j"
  shows "card (ents msk - {i, j}) = card (ents msk) - 2" "2 \<le> card (ents msk)"
proof -
  have "card (ents msk - {i, j}) = card (ents msk) - card {i, j}"
    using assms by (intro card_Diff_subset) auto
  then show "card (ents msk - {i, j}) = card (ents msk) - 2" using assms(3) by simp
  have "card {i, j} \<le> card (ents msk)" using assms by (intro card_mono finite_ents) auto
  then show "2 \<le> card (ents msk)" using assms(3) by simp
qed

lemma length_sorted_candidates:
  assumes "i \<in> ents msk" "n \<le> 64"
  shows "length (sorted_candidates srt cmat n i (msk AND NOT (shl1 i))) \<le> card (ents msk) - 1"
proof -
  let ?c = "sorted_candidates srt cmat n i (msk AND NOT (shl1 i))"
  have i64: "i < 64" using assms(1) by (rule ents_member_small)
  have "length ?c = card (set ?c)" using distinct_sorted_candidates by (simp add: distinct_card)
  also have "\<dots> \<le> card (ents msk - {i})"
    unfolding set_sorted_candidates set_candidate_arr ents_clear[OF i64] using assms(2)
    by (intro card_mono) (auto simp: finite_ents)
  also have "\<dots> = card (ents msk) - 1" using assms(1) by (simp add: finite_ents)
  finally show ?thesis .
qed

text \<open>
  The counter after a search is the counter before it plus the number \<open>k\<close> of expansions,
  in 64-bit arithmetic; \<open>k\<close> is at most the count of the full enumeration.
\<close>

lemma search_count:
  assumes n64: "n \<le> 64"
  shows "\<exists>k\<le>exhaustive_count (card (ents msk)).
     allocations (search srt cmat n msk cur st) = allocations st + of_nat k"
proof (induction msk arbitrary: cur st rule: search_induct[where srt=srt and cmat=cmat and n=n])
  case (node msk)
  show ?case
  proof (cases "msk = 0")
    case True
    then have "allocations (search srt cmat n msk cur st) = allocations st + of_nat 0"
      by (simp add: search_zero record_best_def)
    then show ?thesis by blast
  next
    case False
    let ?p = "prune cmat n msk cur (st\<lparr>trail := trail st @ [msk]\<rparr>)"
    let ?i = "first_unmatched msk n 0"
    let ?nm = "msk AND NOT (shl1 ?i)"
    let ?cs = "sorted_candidates srt cmat n ?i ?nm"
    let ?K = "1 + exhaustive_count (card (ents msk) - 2)"
    have step: "\<exists>k\<le>?K. allocations (branch srt cmat n ?i ?nm cur j s) = allocations s + of_nat k"
      if j: "j \<in> set ?cs" for j s
    proof -
      note cf = candidate_facts[OF j refl refl n64]
      let ?s2 = "s\<lparr>current_pairs := current_pairs s @ [(?i, j)], allocations := allocations s + 1\<rparr>"
      have c: "card (ents (?nm AND NOT (shl1 j))) = card (ents msk) - 2"
        unfolding cf(6) using cf(1,2,4) by (intro card_pair_removed) auto
      obtain k where k: "k \<le> exhaustive_count (card (ents msk) - 2)"
        "allocations (search srt cmat n (?nm AND NOT (shl1 j)) (cur + cmat ?i j) ?s2)
           = allocations ?s2 + of_nat k"
        using node[OF False j, where cur="cur + cmat ?i j" and st="?s2"] unfolding c by blast
      have "allocations (branch srt cmat n ?i ?nm cur j s) = allocations s + of_nat (1 + k)"
        unfolding branch_def Let_def using k(2) by simp
      moreover have "1 + k \<le> ?K" using k(1) by simp
      ultimately show ?thesis by blast
    qed
    obtain k where k: "k \<le> length ?cs * ?K"
      "allocations (expand srt cmat n msk cur (snd ?p)) = allocations (snd ?p) + of_nat k"
      unfolding expand_def Let_def
      using fold_counter[where a=allocations and f="branch srt cmat n ?i ?nm cur" and xs="?cs"
          and K="?K" and s="snd ?p", OF step] by blast
    have "length ?cs * ?K \<le> exhaustive_count (card (ents msk))"
    proof (cases "?cs = []")
      case True then show ?thesis by simp
    next
      case F: False
      then obtain j where j: "j \<in> set ?cs" by (cases ?cs) auto
      note cf = candidate_facts[OF j refl refl n64]
      have "2 \<le> card (ents msk)" using cf(1,2,4) by (intro card_pair_removed(2)[of ?i msk j]) auto
      then obtain c where c: "card (ents msk) = Suc (Suc c)"
        by (metis add_2_eq_Suc le_Suc_ex)
      have "length ?cs \<le> Suc c" using length_sorted_candidates[OF cf(4) n64, of srt cmat] c by simp
      then have "length ?cs * ?K \<le> Suc c * ?K" by (rule mult_le_mono1)
      then show ?thesis using c by simp
    qed
    then have le: "k \<le> exhaustive_count (card (ents msk))" using k(1) by simp
    show ?thesis
    proof (cases "fst ?p")
      case True
      then have "allocations (search srt cmat n msk cur st) = allocations st + of_nat 0"
        by (simp add: search_nonzero'[OF False] Let_def)
      then show ?thesis by blast
    next
      case False
      then have "allocations (search srt cmat n msk cur st) = allocations st + of_nat k"
        using k(2) by (simp add: search_nonzero'[OF \<open>msk \<noteq> 0\<close>] Let_def)
      then show ?thesis using le by blast
    qed
  qed
qed

lemma search_trail:
  "\<exists>ms. trail (search srt cmat n msk cur st) = trail st @ ms \<and>
        (\<forall>m\<in>set ms. even (popcount m) = even (popcount msk))"
proof (induction msk arbitrary: cur st rule: search_induct[where srt=srt and cmat=cmat and n=n])
  case (node msk)
  let ?I = "\<lambda>s::bb_state. \<exists>ms. trail s = trail st @ ms \<and> (\<forall>m\<in>set ms. even (popcount m) = even (popcount msk))"
  show ?case
  proof (cases "msk = 0")
    case True
    then show ?thesis by (simp add: search_zero record_best_def)
  next
    case False
    let ?p = "prune cmat n msk cur (st\<lparr>trail := trail st @ [msk]\<rparr>)"
    let ?i = "first_unmatched msk n 0"
    let ?nm = "msk AND NOT (shl1 ?i)"
    have base: "?I (snd ?p)" by simp
    have "?I (expand srt cmat n msk cur (snd ?p))"
      unfolding expand_def Let_def
    proof (rule fold_invariant[where I="?I"])
      fix j s
      assume j: "j \<in> set (sorted_candidates srt cmat n ?i ?nm)" and I: "?I s"
      note cf = candidate_facts_mod[OF j refl refl]
      let ?s2 = "(s::bb_state)\<lparr>current_pairs := current_pairs s @ [(?i, j)], allocations := allocations s + 1\<rparr>"
      have c: "card (ents (?nm AND NOT (shl1 j))) = card (ents msk) - 2" "2 \<le> card (ents msk)"
        unfolding cf(6) using cf(1,2,4) card_pair_removed[of ?i msk "j mod 64"] by auto
      then have par: "even (popcount (?nm AND NOT (shl1 j))) = even (popcount msk)"
        unfolding popcount_card by simp
      obtain ms' where ms': "trail (search srt cmat n (?nm AND NOT (shl1 j)) (cur + cmat ?i j) ?s2)
            = trail ?s2 @ ms'" "\<forall>m\<in>set ms'. even (popcount m) = even (popcount (?nm AND NOT (shl1 j)))"
        using node[OF False j, where cur="cur + cmat ?i j" and st="?s2"] by blast
      obtain ms where ms: "trail s = trail st @ ms" "\<forall>m\<in>set ms. even (popcount m) = even (popcount msk)"
        using I by blast
      have "trail (branch srt cmat n ?i ?nm cur j s) = trail st @ (ms @ ms')"
        unfolding branch_def Let_def using ms'(1) ms(1) by (simp)
      moreover have "\<forall>m\<in>set (ms @ ms'). even (popcount m) = even (popcount msk)"
        using ms(2) ms'(2) par by auto
      ultimately show "?I (branch srt cmat n ?i ?nm cur j s)" by blast
    qed (rule base)
    then show ?thesis by (simp add: search_nonzero'[OF False] Let_def)
  qed
qed

subsection \<open>What the exhaustive oracle returns\<close>

lemma improved_refl: "improved cmat S cur st st"
  by (simp add: improved_def)

lemma improved_trans:
  assumes "improved cmat S cur st s" "improved cmat S cur s st'"
  shows "improved cmat S cur st st'"
  using assms unfolding improved_def by (elim conjE disjE exE) (auto intro: order_trans)

lemma exhaustive_count_step:
  assumes "0 < c"
  shows "(c - 1) * (1 + exhaustive_count (c - 2)) = exhaustive_count c"
proof (cases c)
  case 0 then show ?thesis using assms by simp
next
  case (Suc c')
  then show ?thesis by (cases c') simp_all
qed

definition oracle_post :: "matrix \<Rightarrow> nat \<Rightarrow> nat set \<Rightarrow> real \<Rightarrow> bb_state \<Rightarrow> bb_state \<Rightarrow> bool" where
  "oracle_post cmat n S cur st st' \<longleftrightarrow>
     improved cmat S cur st st' \<and>
     allocations st' = allocations st + of_nat (exhaustive_count (card S)) \<and>
     (symmetric cmat n \<longrightarrow> S \<subseteq> {0..<n} \<longrightarrow>
        (\<forall>m. pairing S m \<longrightarrow> cur + score cmat m \<le> best_score st'))"

definition loop_post ::
  "matrix \<Rightarrow> nat \<Rightarrow> nat \<Rightarrow> nat set \<Rightarrow> nat set \<Rightarrow> real \<Rightarrow> bb_state \<Rightarrow> bb_state \<Rightarrow> bool" where
  "loop_post cmat n i N C cur st st' \<longleftrightarrow>
     improved cmat (insert i N) cur st st' \<and>
     allocations st' = allocations st + of_nat (card C * (1 + exhaustive_count (card N - 1))) \<and>
     (symmetric cmat n \<longrightarrow> insert i N \<subseteq> {0..<n} \<longrightarrow>
        (\<forall>j\<in>C. \<forall>m'. pairing (N - {j}) m' \<longrightarrow> cur + cmat i j + score cmat m' \<le> best_score st'))"

lemma no_sign_bit_and: "\<not> bit c 63 \<Longrightarrow> \<not> bit (c AND d) 63" for c :: bitmask
  by (simp add: bit_and_iff)

lemma lowest_bit_found:
  assumes "c \<noteq> 0" "\<not> bit c 63"
  obtains l where "get_bit_length (c AND - c) = Some l" "l - 1 \<in> ents c"
  using get_bit_length_total[OF no_sign_bit_and[OF assms(2), of "- c"]] lowest_bit_member[OF _ assms(1)]
  by blast

lemma update_swap:
  "(st::bb_state)\<lparr>allocations := a, current_pairs := c\<rparr> = st\<lparr>current_pairs := c, allocations := a\<rparr>"
  by (cases st) simp

lemma loop_step:
  assumes j: "j \<in> C" "C \<subseteq> N" "i \<notin> N" "finite N"
    and first: "oracle_post cmat n (N - {j}) (cur + cmat i j)
                  (st\<lparr>allocations := allocations st + 1,
                      current_pairs := current_pairs st @ [(i, j)]\<rparr>) sx"
    and rest: "loop_post cmat n i N (C - {j}) cur (sx\<lparr>current_pairs := butlast (current_pairs sx)\<rparr>) st'"
  shows "loop_post cmat n i N C cur st st'"
proof -
  let ?s2 = "st\<lparr>allocations := allocations st + 1, current_pairs := current_pairs st @ [(i, j)]\<rparr>"
  let ?s' = "sx\<lparr>current_pairs := butlast (current_pairs sx)\<rparr>"
  have jN: "j \<in> N" "i \<noteq> j" using j by auto
  have fC: "finite C" using j(2,4) finite_subset by blast
  have eq: "insert i N - {i, j} = N - {j}" using j(3) by auto
  have "improved cmat (insert i N - {i, j}) (cur + cmat i j)
          (st\<lparr>current_pairs := current_pairs st @ [(i, j)], allocations := allocations st + 1\<rparr>) sx"
    using first unfolding oracle_post_def eq update_swap by simp
  then have a: "improved cmat (insert i N) cur st ?s'"
    using jN by (intro improved_branch[where i=i and j=j and s=st] improved_refl) auto
  have b: "improved cmat (insert i N) cur ?s' st'" using rest by (simp add: loop_post_def)
  have imp: "improved cmat (insert i N) cur st st'" using a b by (rule improved_trans)
  have "card (N - {j}) = card N - 1" using jN j(4) by simp
  then have c3: "allocations sx = allocations st + of_nat (1 + exhaustive_count (card N - 1))"
    using first by (simp add: oracle_post_def)
  have cC: "card (C - {j}) = card C - 1" "0 < card C" using j(1) fC by (auto simp: card_gt_0_iff)
  let ?K = "1 + exhaustive_count (card N - 1)"
  have "allocations st' = allocations ?s' + of_nat ((card C - 1) * ?K)"
    using rest unfolding loop_post_def cC(1) by simp
  then have "allocations st' = allocations st + of_nat (?K + (card C - 1) * ?K)"
    using c3 by (simp only: of_nat_add) simp
  moreover have "?K + (card C - 1) * ?K = card C * ?K"
    using cC(2) by (cases "card C") simp_all
  ultimately have cnt: "allocations st' = allocations st + of_nat (card C * ?K)"
    by (simp only:)
  have compl: "cur + cmat i j' + score cmat m' \<le> best_score st'"
    if sym: "symmetric cmat n" and sub: "insert i N \<subseteq> {0..<n}"
      and j': "j' \<in> C" and m': "pairing (N - {j'}) m'" for j' m'
  proof (cases "j' = j")
    case True
    have "N - {j} \<subseteq> {0..<n}" using sub by auto
    then have "cur + cmat i j + score cmat m' \<le> best_score sx"
      using first sym m' True unfolding oracle_post_def by blast
    moreover have "best_score ?s' \<le> best_score st'" using b by (simp add: improved_def)
    ultimately show ?thesis using True by simp
  next
    case False
    then have "j' \<in> C - {j}" using j' by simp
    then show ?thesis using rest sym sub m' unfolding loop_post_def by blast
  qed
  show ?thesis unfolding loop_post_def using imp cnt compl by blast
qed

lemma oracle_from_loop:
  assumes i: "i \<in> S" "finite S"
    and loop: "loop_post cmat n i (S - {i}) (S - {i}) cur st st'"
  shows "oracle_post cmat n S cur st st'"
proof -
  have ins: "insert i (S - {i}) = S" using i by auto
  have imp: "improved cmat S cur st st'" using loop unfolding loop_post_def ins by simp
  have c: "card (S - {i}) = card S - 1" "0 < card S" using i by (auto simp: card_gt_0_iff)
  have "(card S - 1) * (1 + exhaustive_count (card S - 1 - 1)) = exhaustive_count (card S)"
    using exhaustive_count_step[OF c(2)] by (simp add: diff_diff_eq numeral_2_eq_2)
  moreover have "allocations st' = allocations st
      + of_nat ((card S - 1) * (1 + exhaustive_count (card S - 1 - 1)))"
    using loop unfolding loop_post_def c(1) by simp
  ultimately have cnt: "allocations st' = allocations st + of_nat (exhaustive_count (card S))"
    by (simp only:)
  have compl: "cur + score cmat m \<le> best_score st'"
    if sym: "symmetric cmat n" and sub: "S \<subseteq> {0..<n}" and m: "pairing S m" for m
  proof -
    from pairing_split[OF m i(1) sym sub] obtain j m'
      where jm: "j \<in> S" "j \<noteq> i" "pairing (S - {i, j}) m'"
        "score cmat m = cmat i j + score cmat m'" by blast
    have "S - {i, j} = (S - {i}) - {j}" by auto
    then have "pairing ((S - {i}) - {j}) m'" using jm(3) by simp
    moreover have "j \<in> S - {i}" using jm by simp
    ultimately have "cur + cmat i j + score cmat m' \<le> best_score st'"
      using loop sym sub unfolding loop_post_def ins by blast
    then show ?thesis using jm(4) by simp
  qed
  show ?thesis unfolding oracle_post_def using imp cnt compl by blast
qed

lemma exhaustive_search_njit_post:
  "\<not> bit msk 63 \<Longrightarrow>
     \<exists>st'. exhaustive_search_njit cmat n msk cur st = Some st' \<and>
           oracle_post cmat n (ents msk) cur st st'"
  and candidate_loop_post:
  "\<not> bit new_mask 63 \<Longrightarrow> ents candidate \<subseteq> ents new_mask \<Longrightarrow> i \<notin> ents new_mask \<Longrightarrow>
     \<exists>st'. candidate_loop cmat n i new_mask candidate cur st = Some st' \<and>
           loop_post cmat n i (ents new_mask) (ents candidate) cur st st'"
proof (induction cmat n msk cur st and cmat n i new_mask candidate cur st
    rule: exhaustive_search_njit_candidate_loop.induct)
  case (1 cmat n msk cur st)
  show ?case
  proof (cases "msk = 0")
    case True
    have "pairing {} []" by (simp add: pairing_def)
    then have "improved cmat {} cur st (record_best cur st)"
      by (auto simp: improved_def record_best_def)
    moreover have "\<And>m. pairing {} m \<Longrightarrow> cur + score cmat m \<le> best_score (record_best cur st)"
    proof -
      fix m :: "pair list" assume "pairing {} m"
      then have "m = []" by (cases m) (auto simp: pairing_def)
      then show "cur + score cmat m \<le> best_score (record_best cur st)"
        by (simp add: record_best_def)
    qed
    moreover have "allocations (record_best cur st) = allocations st"
      by (simp add: record_best_def)
    moreover have "ents msk = {}" using True by (simp add: ents_def)
    ultimately have "oracle_post cmat n (ents msk) cur st (record_best cur st)"
      by (simp add: oracle_post_def)
    moreover have "exhaustive_search_njit cmat n msk cur st = Some (record_best cur st)"
      using True by (subst exhaustive_search_njit.simps) simp
    ultimately show ?thesis by blast
  next
    case False
    from lowest_bit_found[OF False 1(2)] obtain l
      where l: "get_bit_length (msk AND - msk) = Some l" "l - 1 \<in> ents msk" by blast
    let ?i = "l - 1"
    let ?nm = "msk AND NOT (shl1 ?i)"
    have nm: "ents ?nm = ents msk - {?i}" using l(2) by (intro ents_clear ents_member_small)
    have "\<not> bit ?nm 63" using 1(2) by (simp add: bit_and_iff)
    moreover have "?i \<notin> ents ?nm" unfolding nm by simp
    ultimately obtain st' where st': "candidate_loop cmat n ?i ?nm ?nm cur st = Some st'"
      "loop_post cmat n ?i (ents ?nm) (ents ?nm) cur st st'"
      using 1(1)[OF False l(1) refl refl] by blast
    have "oracle_post cmat n (ents msk) cur st st'"
      using st'(2) l(2) unfolding nm by (intro oracle_from_loop[where i="?i"]) (simp_all add: finite_ents)
    moreover have "exhaustive_search_njit cmat n msk cur st = Some st'"
      using False l(1) st'(1) by (subst exhaustive_search_njit.simps) (simp add: Let_def)
    ultimately show ?thesis by blast
  qed
next
  case (2 cmat n i new_mask candidate cur st)
  show ?case
  proof (cases "candidate = 0")
    case True
    then have "candidate_loop cmat n i new_mask candidate cur st = Some st"
      by (subst candidate_loop.simps) simp
    moreover have "loop_post cmat n i (ents new_mask) (ents candidate) cur st st"
      using True by (simp add: loop_post_def improved_refl ents_def)
    ultimately show ?thesis by blast
  next
    case False
    have nc: "\<not> bit candidate 63" using 2(3,4) by (auto simp: ents_def)
    from lowest_bit_found[OF False nc] obtain l
      where l: "get_bit_length (candidate AND - candidate) = Some l" "l - 1 \<in> ents candidate" by blast
    let ?j = "l - 1"
    note ec = ents_clear[OF ents_member_small[OF l(2)]]
    let ?c' = "candidate AND NOT (shl1 ?j)"
    let ?st1 = "st\<lparr>allocations := allocations st + 1\<rparr>"
    let ?next = "new_mask AND NOT (shl1 ?j)"
    let ?st2 = "?st1\<lparr>current_pairs := current_pairs ?st1 @ [(i, ?j)]\<rparr>"
    have "\<not> bit ?next 63" using 2(3) by (simp add: bit_and_iff)
    from 2(1)[OF False l(1) refl refl refl refl refl this] obtain st3
      where st3: "exhaustive_search_njit cmat n ?next (cur + cmat i ?j) ?st2 = Some st3"
        "oracle_post cmat n (ents ?next) (cur + cmat i ?j) ?st2 st3" by blast
    let ?s' = "st3\<lparr>current_pairs := butlast (current_pairs st3)\<rparr>"
    have "ents ?c' \<subseteq> ents new_mask" unfolding ec using 2(4) by auto
    from 2(2)[OF False l(1) refl refl refl refl refl st3(1) 2(3) this 2(5)] obtain st'
      where st': "candidate_loop cmat n i new_mask ?c' cur ?s' = Some st'"
        "loop_post cmat n i (ents new_mask) (ents ?c') cur ?s' st'" by blast
    have "loop_post cmat n i (ents new_mask) (ents candidate) cur st st'"
    proof (rule loop_step[where j="?j" and sx=st3])
      show "?j \<in> ents candidate" by (rule l(2))
      show "ents candidate \<subseteq> ents new_mask" by (rule 2(4))
      show "i \<notin> ents new_mask" by (rule 2(5))
      show "finite (ents new_mask)" by (rule finite_ents)
      show "oracle_post cmat n (ents new_mask - {?j}) (cur + cmat i ?j)
         (st\<lparr>allocations := allocations st + 1, current_pairs := current_pairs st @ [(i, ?j)]\<rparr>) st3"
        using st3(2) unfolding ec by simp
      show "loop_post cmat n i (ents new_mask) (ents candidate - {?j}) cur ?s' st'"
        using st'(2) unfolding ec .
    qed
    moreover have "candidate_loop cmat n i new_mask candidate cur st = Some st'"
      using False l(1) st3(1) st'(1)
      by (subst candidate_loop.simps) (simp add: Let_def)
    ultimately show ?thesis by blast
  qed
qed

subsection \<open>A pairing of an even number of students\<close>

definition neighbours :: "nat \<Rightarrow> pair list" where
  "neighbours k = map (\<lambda>t. (2 * t, 2 * t + 1)) [0..<k]"

lemma ids_neighbours: "ids (neighbours k) = [0..<2 * k]"
proof (induction k)
  case 0 show ?case by (simp add: neighbours_def)
next
  case (Suc k)
  have "neighbours (Suc k) = neighbours k @ [(2 * k, 2 * k + 1)]" by (simp add: neighbours_def)
  then show ?case using Suc by simp
qed

lemma pairing_neighbours: "pairing {0..<2 * k} (neighbours k)"
  by (simp add: pairing_def ids_neighbours)

lemma score_nonneg:
  assumes "nonnegative cmat n" "set (ids m) \<subseteq> {0..<n}"
  shows "0 \<le> score cmat m"
  using assms(2)
proof (induction m)
  case Nil show ?case by simp
next
  case (Cons p m)
  obtain a b where p: "p = (a, b)" by (cases p)
  have "0 \<le> cmat a b" using Cons(2) assms(1) p by (simp add: nonnegative_def)
  moreover have "0 \<le> score cmat m" using Cons p by simp
  ultimately show ?case by (simp add: p)
qed


subsection \<open>What the branch and bound search returns\<close>

lemma run_search_improved:
  "n < 64 \<Longrightarrow> improved cmat {0..<n} 0 init_state (run_search srt cmat n)"
  using search_improved[of n cmat "full_mask n" 0 init_state srt]
  by (simp add: run_search_def ents_full_mask)

lemma run_search_complete:
  assumes "symmetric cmat n" "n < 64" "pairing {0..<n} m"
  shows "score cmat m \<le> best_score (run_search srt cmat n)"
  using search_complete[OF assms(1) _ memo_ok_init, of "full_mask n" m 0 srt] assms(2,3)
  by (simp add: run_search_def ents_full_mask)

lemma run_search_nonneg:
  assumes "even n" "n < 64" "symmetric cmat n" "nonnegative cmat n"
  shows "0 \<le> best_score (run_search srt cmat n)"
proof -
  obtain k where k: "n = 2 * k" using assms(1) by (elim evenE)
  have p: "pairing {0..<n} (neighbours k)" unfolding k by (rule pairing_neighbours)
  have "0 \<le> score cmat (neighbours k)"
    using assms(4) p by (intro score_nonneg[where n=n]) (simp_all add: pairing_def)
  moreover have "score cmat (neighbours k) \<le> best_score (run_search srt cmat n)"
    using assms(3,2) p by (rule run_search_complete)
  ultimately show ?thesis by simp
qed

lemma no_sign_bit_full_mask: "\<not> bit (full_mask n) 63"
  using mod_less_divisor[of 64 n] by (simp add: bit_full_mask del: mod_less_divisor)

lemma oracle_run:
  obtains st' where "exhaustive_search_njit cmat n (full_mask n) 0 init_state = Some st'"
    "oracle_post cmat n {0..<n mod 64} 0 init_state st'"
  using exhaustive_search_njit_post[OF no_sign_bit_full_mask, of cmat n n 0 init_state]
  by (auto simp: ents_full_mask)


subsection \<open>The result depends on the matrix entries below \<open>n\<close> only\<close>

definition agree :: "matrix \<Rightarrow> matrix \<Rightarrow> nat \<Rightarrow> bool" where
  "agree cmat cmat' n \<longleftrightarrow> (\<forall>i<n. \<forall>j<n. cmat i j = cmat' i j)"

lemma compute_upper_bound_agree:
  assumes "agree cmat cmat' n"
  shows "compute_upper_bound msk cmat n = compute_upper_bound msk cmat' n"
proof -
  have "best_partner msk cmat n i = best_partner msk cmat' n i" if "i < n" for i
    unfolding best_partner_def using assms that
    by (intro fold_cong) (auto simp: agree_def)
  then show ?thesis unfolding compute_upper_bound_def
    by (intro arg_cong[where f="\<lambda>x. x / 2"] fold_cong) auto
qed

lemma prune_agree: "agree cmat cmat' n \<Longrightarrow> prune cmat n msk cur st = prune cmat' n msk cur st"
  unfolding prune_def by (simp only: compute_upper_bound_agree[of cmat cmat' n msk])

lemma sorted_candidates_agree:
  assumes "agree cmat cmat' n" "nm = msk AND NOT (shl1 (first_unmatched msk n 0))"
  shows "sorted_candidates srt cmat n (first_unmatched msk n 0) nm
       = sorted_candidates srt cmat' n (first_unmatched msk n 0) nm"
proof -
  let ?i = "first_unmatched msk n 0"
  have "map (\<lambda>j. cmat ?i j) (candidate_arr nm n) = map (\<lambda>j. cmat' ?i j) (candidate_arr nm n)"
  proof (rule map_cong[OF refl])
    fix j assume j: "j \<in> set (candidate_arr nm n)"
    then have "j < n" "j mod 64 \<in> ents msk"
      unfolding set_candidate_arr assms(2) ents_clear_mod by auto
    then have "?i < n" by (rule first_unmatched_pivot)
    then show "cmat ?i j = cmat' ?i j" using assms(1) \<open>j < n\<close> by (simp add: agree_def)
  qed
  then show ?thesis unfolding sorted_candidates_def Let_def by (simp only:)
qed

lemma search_agree:
  assumes "agree cmat cmat' n"
  shows "search srt cmat n msk cur st = search srt cmat' n msk cur st"
proof (induction msk arbitrary: cur st rule: search_induct[where srt=srt and cmat=cmat and n=n])
  case (node msk)
  show ?case
  proof (cases "msk = 0")
    case True then show ?thesis by (simp add: search_zero)
  next
    case False
    let ?i = "first_unmatched msk n 0"
    let ?nm = "msk AND NOT (shl1 ?i)"
    have sc: "sorted_candidates srt cmat n ?i ?nm = sorted_candidates srt cmat' n ?i ?nm"
      using assms by (intro sorted_candidates_agree) simp_all
    have "expand srt cmat n msk cur s = expand srt cmat' n msk cur s" for s
      unfolding expand_def Let_def sc[symmetric]
    proof (rule fold_cong[OF refl refl])
      fix j assume j: "j \<in> set (sorted_candidates srt cmat n ?i ?nm)"
      note cf = candidate_facts_mod[OF j refl refl]
      have e: "cmat ?i j = cmat' ?i j" using assms cf(3,5) by (simp add: agree_def)
      show "branch srt cmat n ?i ?nm cur j = branch srt cmat' n ?i ?nm cur j"
        unfolding branch_def[abs_def] Let_def e using node[OF False j] by simp
    qed
    then show ?thesis
      by (simp add: search_nonzero'[OF False] prune_agree[OF assms] Let_def)
  qed
qed

subsection \<open>Concrete runs\<close>

text \<open>
  Scenario A of the specification: four students, weight 5 between 0 and 1 and between
  2 and 3, weight 1 between every other two (the sums \<open>i + j\<close> of the two heavy pairs are
  1 and 5, and no other pair has these sums); the diagonal is not used.
\<close>

definition scenario_A :: matrix where
  "scenario_A i j = (if i = j then 0 else if i + j = 1 \<or> i + j = 5 then 5 else 1)"

definition zero_matrix :: matrix where
  "zero_matrix i j = 0"

definition deep_negative :: matrix where
  "deep_negative i j = - 2000000000"

lemma symmetric_scenario_A: "symmetric scenario_A n"
  by (simp add: symmetric_def scenario_A_def add.commute eq_commute)

lemma nonnegative_scenario_A: "nonnegative scenario_A n"
  by (simp add: nonnegative_def scenario_A_def)

lemma symmetric_zero: "symmetric zero_matrix n"
  by (simp add: symmetric_def zero_matrix_def)

lemma nonnegative_zero: "nonnegative zero_matrix n"
  by (simp add: nonnegative_def zero_matrix_def)

lemma argsort_insertion: "argsort insertion_argsort xs = stable_argsort xs"
  by (simp add: argsort.rep_eq insertion_argsort.rep_eq)

lemma prune_eval:
  "prune cmat n msk cur st =
     (case memo st msk of
        Some ub \<Rightarrow> (cur + ub \<le> best_score st, st)
      | None \<Rightarrow> (cur + compute_upper_bound msk cmat n \<le> best_score st,
                 st\<lparr>memo := (memo st)(msk \<mapsto> compute_upper_bound msk cmat n)\<rparr>))"
  by (cases "memo st msk") (simp_all add: prune_def Let_def)

lemma first_unmatched_eval:
  "first_unmatched msk n i =
     (if i < n then (if bit msk (i mod 64) then i else first_unmatched msk n (Suc i)) else i)"
  by (subst first_unmatched.simps) (simp add: bit_test)

lemma candidate_arr_eval: "candidate_arr nm n = filter (\<lambda>j. bit nm (j mod 64)) [0..<n]"
  by (simp add: candidate_arr_def bit_test)

lemma best_partner_eval:
  "best_partner msk cmat n i =
     fold (\<lambda>j best_val. if bit msk (j mod 64) \<and> i \<noteq> j then max (cmat i j) best_val
                         else best_val)
       [0..<n] 0"
  unfolding best_partner_def
  by (rule arg_cong[where f="\<lambda>f. fold f _ _"]) (auto simp: bit_test fun_eq_iff max_def)

lemma compute_upper_bound_eval:
  "compute_upper_bound msk cmat n =
     fold (\<lambda>i additional. if bit msk (i mod 64) then additional + best_partner msk cmat n i
                           else additional)
       [0..<n] 0 / 2"
  unfolding compute_upper_bound_def by (simp add: bit_test)

lemma shl1_eval: "shl1 i = 2 ^ (i mod 64)"
  by (simp add: shl1_def)

lemmas eval_simps = run_search_def full_mask_def shl1_eval init_state_def
  search_nonzero' search_zero record_best_def prune_eval expand_def branch_def
  compute_upper_bound_eval best_partner_eval first_unmatched_eval sorted_candidates_def
  candidate_arr_eval stable_argsort_def argsort_insertion Let_def upt_conv_Cons

lemma run_scenario_A:
  "run_search insertion_argsort scenario_A 4 =
     \<lparr>best_score = 10, best_pairs = [(0, 1), (2, 3)], current_pairs = [],
      memo = [15 \<mapsto> 10, 12 \<mapsto> 5, 6 \<mapsto> 1, 10 \<mapsto> 1], allocations = 4,
      trail = [15, 12, 0, 6, 10]\<rparr>"
  by (simp add: eval_simps scenario_A_def)


lemma run_deep_negative_2:
  "run_search insertion_argsort deep_negative 2 =
     \<lparr>best_score = - 1000000000, best_pairs = [], current_pairs = [],
      memo = [3 \<mapsto> 0], allocations = 1, trail = [3, 0]\<rparr>"
  by (simp add: eval_simps deep_negative_def)

subsection \<open>Runs on 66 students\<close>




lemma upt_0_numeral:
  "2 \<le> (numeral n :: nat) \<Longrightarrow> [0..<numeral n] = 0 # Suc 0 # [2..<numeral n]"
  by (simp add: upt_conv_Cons numeral_2_eq_2)

lemma compute_upper_bound_zero_66: "compute_upper_bound 3 zero_matrix 66 = 0"
  by (simp add: compute_upper_bound_eval best_partner_eval zero_matrix_def upt_0_numeral)


lemma candidate_arr_66: "candidate_arr 2 66 = [1, 65]"
  by (simp add: candidate_arr_eval upt_0_numeral)

lemma first_unmatched_66: "first_unmatched 3 66 0 = 0"
  by (subst first_unmatched.simps) (simp add: shl1_eval)

lemmas eval_66 = run_search_def full_mask_def shl1_eval init_state_def search_nonzero'
  search_zero record_best_def prune_eval expand_def branch_def candidate_arr_66
  first_unmatched_66 sorted_candidates_def stable_argsort_def argsort_insertion Let_def

lemma run_zero_66:
  "run_search insertion_argsort zero_matrix 66 =
     \<lparr>best_score = 0, best_pairs = [(0, 65)], current_pairs = [],
      memo = [3 \<mapsto> 0], allocations = 2, trail = [3, 0, 0]\<rparr>"
  by (simp add: eval_66 compute_upper_bound_zero_66 zero_matrix_def)


lemma signed_drop_bit_nonneg:
  "\<not> bit x 63 \<Longrightarrow> signed_drop_bit 1 x = drop_bit 1 x" for x :: bitmask
  by (rule bit_word_eqI)
     (auto simp: bit_signed_drop_bit_iff bit_drop_bit_eq dest: bit_imp_le_length)

lemma get_bit_length_loop_0: "get_bit_length_loop 0 len = Some len"
  by (subst get_bit_length_loop.simps) simp

lemma get_bit_length_loop_1: "get_bit_length_loop 1 len = Some (Suc len)"
  by (subst get_bit_length_loop.simps) (simp add: signed_drop_bit_nonneg get_bit_length_loop_0)

lemma get_bit_length_1: "get_bit_length 1 = Some 1"
  by (simp add: get_bit_length_def get_bit_length_loop_1)

lemma get_bit_length_2: "get_bit_length 2 = Some 2"
  unfolding get_bit_length_def
  by (subst get_bit_length_loop.simps) (simp add: signed_drop_bit_nonneg get_bit_length_loop_1)

lemmas oracle_eval_66 = exhaustive_search_wrapper_def full_mask_def shl1_eval init_state_def
  exhaustive_search_njit.simps candidate_loop.simps get_bit_length_1 get_bit_length_2 Let_def
  record_best_def

lemma oracle_zero_66: "exhaustive_search_wrapper zero_matrix 66 = Some (0, [(0, 1)], 1)"
  by (simp add: oracle_eval_66 zero_matrix_def)


subsection \<open>The counters as signed 64-bit integers\<close>

lemma sint_of_nat_small: "k < 2 ^ 63 \<Longrightarrow> sint (of_nat k :: 64 word) = int k"
proof -
  assume "k < 2 ^ 63"
  then have "int k < 2 ^ 63" by (metis of_nat_less_iff of_nat_numeral of_nat_power)
  then have "signed_take_bit 63 (int k) = int k"
    by (intro signed_take_bit_int_eq_self) simp_all
  moreover have "sint (of_nat k :: 64 word) = signed_take_bit (LENGTH(64) - Suc 0) (int k)"
    by (simp add: signed_of_nat)
  ultimately show ?thesis by simp
qed

lemma exhaustive_count_Suc: "exhaustive_count n \<le> exhaustive_count (Suc n)"
proof (induction n rule: exhaustive_count.induct)
  case 1 show ?case by simp
next
  case 2 show ?case by simp
next
  case (3 k)
  have "Suc k * (1 + exhaustive_count k) \<le> Suc (Suc k) * (1 + exhaustive_count (Suc k))"
    using 3 by (intro mult_le_mono) simp_all
  then show ?case by simp
qed

lemma exhaustive_count_mono: "m \<le> n \<Longrightarrow> exhaustive_count m \<le> exhaustive_count n"
  by (rule lift_Suc_mono_le[of exhaustive_count]) (simp_all add: exhaustive_count_Suc)

lemma exhaustive_count_if:
  "exhaustive_count n = (if 2 \<le> n then (n - 1) * (1 + exhaustive_count (n - 2)) else 0)"
  by (cases n rule: exhaustive_count.cases) simp_all

lemmas exhaustive_count_rec = exhaustive_count_if[of "numeral n"] for n

lemma exhaustive_count_33: "exhaustive_count 33 = 2260719942417458912"
  by (simp add: exhaustive_count_rec)

lemma exhaustive_count_small: "n < 34 \<Longrightarrow> exhaustive_count n < 2 ^ 63"
  using exhaustive_count_mono[of n 33] by (simp add: exhaustive_count_33)

lemma even_mod_64: "even (n mod 64) \<longleftrightarrow> even n" for n :: nat
  by presburger

subsection \<open>Reading the results of the two entry points\<close>

lemma pairing_no_self_pair: "pairing S ps \<Longrightarrow> \<forall>p\<in>set ps. fst p \<noteq> snd p"
proof
  fix p assume ps: "pairing S ps" and p: "p \<in> set ps"
  obtain a b where ab: "p = (a, b)" by (cases p)
  obtain xs ys where "ps = xs @ (a, b) # ys" using p ab by (meson split_list)
  then have "distinct (ids xs @ a # b # ids ys)" using ps by (simp add: pairing_def)
  then show "fst p \<noteq> snd p" using ab by auto
qed

lemma bb_result:
  "branch_and_bound_numba srt cmat n =
     (best_score (run_search srt cmat n), best_pairs (run_search srt cmat n),
      allocations (run_search srt cmat n))"
  by (simp add: branch_and_bound_numba_def Let_def)

lemma oracle_result:
  obtains st' where
    "exhaustive_search_wrapper cmat n = Some (best_score st', best_pairs st', allocations st')"
    "oracle_post cmat n {0..<n mod 64} 0 init_state st'"
proof -
  from oracle_run[of cmat n] obtain st'
    where "exhaustive_search_njit cmat n (full_mask n) 0 init_state = Some st'"
      "oracle_post cmat n {0..<n mod 64} 0 init_state st'" by blast
  then show thesis by (intro that[of st']) (simp_all add: exhaustive_search_wrapper_def)
qed

section \<open>Properties\<close>







text \<open>
  C4. The entry point initialises the tracked best score to the finite sentinel \<open>-1e9\<close>.
  A complete pairing reached while the tracked best still has that value is recorded
  when its score exceeds \<open>-1e9\<close>, and is not recorded otherwise. For every even \<open>n\<close> below
  64 and every symmetric matrix of non-negative weights the solver returns a score of at
  least 0, so the sentinel has been replaced.
\<close>

theorem C4_sentinel:
  assumes "best_score st = best_score init_state"
    and "even n" "n < 64" "symmetric cmat n" "nonnegative cmat n"
  shows "best_score init_state = - 1000000000 \<and>
         (if - 1000000000 < cur
          then best_score (search srt cmat k 0 cur st) = cur \<and>
               best_pairs (search srt cmat k 0 cur st) = current_pairs st
          else best_score (search srt cmat k 0 cur st) = best_score st \<and>
               best_pairs (search srt cmat k 0 cur st) = best_pairs st) \<and>
         0 \<le> fst (branch_and_bound_numba srt cmat n)"
  using assms(1) run_search_nonneg[OF assms(2-5), of srt]
  by (simp add: search_zero record_best_def init_state_def bb_result)

theorem C4_witness:
  "best_score init_state = best_score init_state \<and> even (4::nat) \<and> (4::nat) < 64 \<and>
   symmetric scenario_A 4 \<and> nonnegative scenario_A 4 \<and>
   best_score (search insertion_argsort scenario_A 4 0 10 init_state) = 10 \<and>
   best_pairs (search insertion_argsort scenario_A 4 0 10 init_state) = current_pairs init_state \<and>
   0 \<le> fst (branch_and_bound_numba insertion_argsort scenario_A 4)"
proof -
  have a: "(- 1000000000 :: real) < 10" by simp
  have e: "even (4::nat)" "(4::nat) < 64" by simp_all
  show ?thesis
    using C4_sentinel[OF refl e symmetric_scenario_A nonnegative_scenario_A,
        of 10 insertion_argsort 4]
    by (simp only: a e if_True symmetric_scenario_A nonnegative_scenario_A simp_thms)
qed

theorem C4_counterexample:
  "even (2::nat) \<and> symmetric deep_negative 2 \<and>
   trail (run_search insertion_argsort deep_negative 2) = [3, 0] \<and>
   branch_and_bound_numba insertion_argsort deep_negative 2 = (- 1000000000, [], 1)"
  by (simp add: bb_result run_deep_negative_2 symmetric_def deep_negative_def)

text \<open>
  C5. For every even \<open>n\<close> from 2 up to, and not including, 64 and every symmetric
  matrix of non-negative weights, the returned pairing lists every student below \<open>n\<close> in
  exactly one pair, and no pair has the same student twice.
\<close>

theorem C5_perfect_matching:
  assumes "even n" "2 \<le> n" "n < 64" "symmetric cmat n" "nonnegative cmat n"
  shows "pairing {0..<n} (fst (snd (branch_and_bound_numba srt cmat n))) \<and>
         (\<forall>p\<in>set (fst (snd (branch_and_bound_numba srt cmat n))). fst p \<noteq> snd p)"
proof -
  obtain k where k: "n = 2 * k" using assms(1) by (elim evenE)
  have p: "pairing {0..<n} (neighbours k)" unfolding k by (rule pairing_neighbours)
  have "0 \<le> score cmat (neighbours k)"
    using assms(5) p by (intro score_nonneg[where n=n]) (simp_all add: pairing_def)
  moreover have "score cmat (neighbours k) \<le> best_score (run_search srt cmat n)"
    using assms(4,3) p by (rule run_search_complete)
  ultimately have "best_score (run_search srt cmat n) \<noteq> best_score init_state"
    by (simp add: init_state_def)
  moreover have "improved cmat {0..<n} 0 init_state (run_search srt cmat n)"
    using assms(3) by (rule run_search_improved)
  ultimately have "pairing {0..<n} (best_pairs (run_search srt cmat n))"
    by (auto simp: improved_def init_state_def)
  then show ?thesis using pairing_no_self_pair by (simp add: bb_result)
qed

theorem C5_witness:
  "even (4::nat) \<and> (2::nat) \<le> 4 \<and> (4::nat) < 64 \<and> symmetric scenario_A 4 \<and>
   nonnegative scenario_A 4 \<and>
   pairing {0..<4} (fst (snd (branch_and_bound_numba insertion_argsort scenario_A 4))) \<and>
   fst (snd (branch_and_bound_numba insertion_argsort scenario_A 4)) = [(0, 1), (2, 3)]"
  using C5_perfect_matching[of 4 scenario_A insertion_argsort]
  by (simp add: symmetric_scenario_A nonnegative_scenario_A bb_result run_scenario_A)

theorem C5_counterexample:
  "even (66::nat) \<and> (2::nat) \<le> 66 \<and> symmetric zero_matrix 66 \<and> nonnegative zero_matrix 66 \<and>
   branch_and_bound_numba insertion_argsort zero_matrix 66 = (0, [(0, 65)], 2) \<and>
   \<not> pairing {0..<66} (fst (snd (branch_and_bound_numba insertion_argsort zero_matrix 66)))"
proof -
  have "\<not> pairing {0..<66} [(0, 65)]"
  proof
    assume "pairing {0..<66} [(0, 65)]"
    then have "set (ids [(0, 65)]) = {0..<66}" by (simp add: pairing_def)
    moreover have "(1::nat) \<in> {0..<66}" by simp
    ultimately have "(1::nat) \<in> set (ids [(0, 65)])" by (simp only:)
    then show False by simp
  qed
  then show ?thesis by (simp add: symmetric_zero nonnegative_zero bb_result run_zero_66)
qed

text \<open>
  C6. Every invocation builds its own best score, lists, cache and counter, and the
  result is a function of \<open>n\<close> and of the \<open>n\<close> by \<open>n\<close> entries of the matrix alone: two
  invocations whose inputs agree there return the same score, the same pairs in the same
  order and the same count.
\<close>

theorem C6_deterministic:
  assumes "agree cmat cmat' n"
  shows "branch_and_bound_numba srt cmat n = branch_and_bound_numba srt cmat' n"
  using search_agree[OF assms] by (simp add: branch_and_bound_numba_def run_search_def)

theorem C6_witness:
  "agree scenario_A (\<lambda>i j. if i < 4 \<and> j < 4 then scenario_A i j else 7) 4 \<and>
   branch_and_bound_numba insertion_argsort scenario_A 4 =
   branch_and_bound_numba insertion_argsort (\<lambda>i j. if i < 4 \<and> j < 4 then scenario_A i j else 7) 4"
proof -
  have a: "agree scenario_A (\<lambda>i j. if i < 4 \<and> j < 4 then scenario_A i j else 7) 4"
    by (simp add: agree_def)
  show ?thesis using C6_deterministic[OF a, of insertion_argsort] a by simp
qed

text \<open>
  C7. For every even \<open>n\<close>, every mask on which \<open>search\<close> is entered, starting from the full
  mask, has an even number of set bits.
\<close>

theorem C7_even_states:
  assumes "even n"
  shows "\<forall>m\<in>set (trail (run_search srt cmat n)). even (popcount m)"
proof -
  obtain ms where ms: "trail (run_search srt cmat n) = trail init_state @ ms"
    "\<forall>m\<in>set ms. even (popcount m) = even (popcount (full_mask n))"
    using search_trail[of srt cmat n "full_mask n" 0 init_state] unfolding run_search_def by blast
  have "even (popcount (full_mask n))" using assms by (simp add: popcount_full_mask even_mod_64)
  then show ?thesis using ms by (simp add: init_state_def)
qed

theorem C7_witness:
  "even (4::nat) \<and>
   trail (run_search insertion_argsort scenario_A 4) = [15, 12, 0, 6, 10] \<and>
   even (popcount 15) \<and> even (popcount 12) \<and> even (popcount 0) \<and>
   even (popcount 6) \<and> even (popcount 10)"
  using C7_even_states[of 4 insertion_argsort scenario_A] by (simp add: run_scenario_A)

text \<open>
  C8. For every matrix and every \<open>n\<close> below 34, the exhaustive oracle returns, its counter
  is the count of the full enumeration, which is below \<open>2 ^ 63\<close>, and the counter of the
  branch and bound solver is at least 0 and at most the counter of the oracle.
\<close>

theorem C8_fewer_expansions:
  assumes "n < 34"
  shows "(case exhaustive_search_wrapper cmat n of
            None \<Rightarrow> False
          | Some r \<Rightarrow>
              0 \<le> sint (snd (snd (branch_and_bound_numba srt cmat n))) \<and>
              sint (snd (snd (branch_and_bound_numba srt cmat n))) \<le> sint (snd (snd r)) \<and>
              sint (snd (snd r)) = int (exhaustive_count n))"
proof -
  have n64: "n < 64" using assms by simp
  from oracle_result[of cmat n] obtain st'
    where w: "exhaustive_search_wrapper cmat n = Some (best_score st', best_pairs st', allocations st')"
      and post: "oracle_post cmat n {0..<n} 0 init_state st'" using n64 by auto
  have small: "exhaustive_count n < 2 ^ 63" using assms by (rule exhaustive_count_small)
  have "allocations st' = of_nat (exhaustive_count n)"
    using post by (simp add: oracle_post_def init_state_def)
  then have a: "sint (allocations st') = int (exhaustive_count n)"
    using small by (simp add: sint_of_nat_small)
  obtain k where k: "k \<le> exhaustive_count n"
    "allocations (run_search srt cmat n) = of_nat k"
    using search_count[of n "full_mask n" srt cmat 0 init_state] n64
    by (auto simp: run_search_def ents_full_mask init_state_def)
  have "k < 2 ^ 63" using k(1) small by simp
  then have b: "sint (allocations (run_search srt cmat n)) = int k"
    using k(2) by (simp add: sint_of_nat_small)
  show ?thesis using w a b k(1) by (simp add: bb_result)
qed

theorem C8_witness:
  "(4::nat) < 34 \<and>
   (case exhaustive_search_wrapper scenario_A 4 of
      None \<Rightarrow> False
    | Some r \<Rightarrow>
        0 \<le> sint (snd (snd (branch_and_bound_numba insertion_argsort scenario_A 4))) \<and>
        sint (snd (snd (branch_and_bound_numba insertion_argsort scenario_A 4))) \<le> sint (snd (snd r)) \<and>
        sint (snd (snd r)) = int (exhaustive_count 4)) \<and>
   snd (snd (branch_and_bound_numba insertion_argsort scenario_A 4)) = 4"
  using C8_fewer_expansions[where n=4 and cmat=scenario_A and srt=insertion_argsort]
  by (simp add: bb_result run_scenario_A)

theorem C8_counterexample:
  "even (66::nat) \<and>
   snd (snd (branch_and_bound_numba insertion_argsort zero_matrix 66)) = 2 \<and>
   map_option (\<lambda>r. snd (snd r)) (exhaustive_search_wrapper zero_matrix 66) = Some 1 \<and>
   sint (1 :: 64 word) < sint (2 :: 64 word)"
  by (simp add: bb_result run_zero_66 oracle_zero_66)

text \<open>
  C9. For \<open>n = 0\<close> the solver returns score 0 and the empty pairing; the source has no
  failure path, so nothing is raised. The full mask is 0, which is the terminal case at
  once, and \<open>0 > -1e9\<close> records the empty current pairing.
\<close>

theorem C9_zero_students:
  "branch_and_bound_numba srt cmat 0 = (0, [], 0)"
  by (simp add: branch_and_bound_numba_def run_search_def full_mask_def shl1_def search_zero
      record_best_def init_state_def)

text \<open>
  C10. The full mask \<open>np.int64((1 << n) - 1)\<close> has exactly the bits below \<open>n mod 64\<close>: the
  shift count is taken modulo 64, so the mask of \<open>64 + k\<close> students is the mask of \<open>k\<close>
  students. Its set bits are the students \<open>0, ..., n - 1\<close>, and its value as a signed
  64-bit integer is \<open>2 ^ n - 1\<close>, exactly when \<open>n \<le> 63\<close>.
\<close>

theorem C10_full_mask_width:
  "(\<forall>i. bit (full_mask n) i \<longleftrightarrow> i < n mod 64) \<and>
   (ents (full_mask n) = {0..<n} \<longleftrightarrow> n \<le> 63) \<and>
   (sint (full_mask n) = 2 ^ n - 1 \<longleftrightarrow> n \<le> 63) \<and>
   full_mask (64 + k) = full_mask k"
proof -
  have a: "ents (full_mask n) = {0..<n} \<longleftrightarrow> n \<le> 63"
  proof
    assume "ents (full_mask n) = {0..<n}"
    then have "{0..<n mod 64} = {0..<n}" by (simp add: ents_full_mask)
    then have "n mod 64 = n" by (metis atLeastLessThan_upt length_upt diff_zero card_atLeastLessThan)
    then show "n \<le> 63" using mod_less_divisor[of 64 n] by linarith
  qed (simp add: ents_full_mask)
  have b: "sint (full_mask n) = 2 ^ n - 1 \<longleftrightarrow> n \<le> 63"
  proof
    assume "sint (full_mask n) = 2 ^ n - 1"
    then have "(2::int) ^ (n mod 64) = 2 ^ n" by (simp add: sint_full_mask)
    then have "n mod 64 = n" by simp
    then show "n \<le> 63" using mod_less_divisor[of 64 n] by linarith
  qed (simp add: sint_full_mask)
  have c: "full_mask (64 + k) = full_mask k" by (simp add: full_mask_eq_mask)
  show ?thesis using a b c by (simp add: bit_full_mask)
qed

theorem C10_counterexample:
  "full_mask 64 = 0 \<and> full_mask 66 = 3 \<and>
   (word_of_int (2 ^ 64 - 1) :: bitmask) = - 1 \<and> (word_of_int (2 ^ 66 - 1) :: bitmask) = - 1 \<and>
   full_mask 64 \<noteq> word_of_int (2 ^ 64 - 1)"
  by (simp add: full_mask_def shl1_eval)

end
